theory Spec2Isabelle
  imports Complex_Main "HOL-Library.Sublist" "HOL-Library.AList"
begin

section \<open>Text: characters, whitespace and the string methods the server uses\<close>

text \<open>
  The server works on Python \<open>str\<close> values. A \<^typ>\<open>string\<close> here is a list of
  \<^typ>\<open>char\<close>, and a \<^typ>\<open>char\<close> stands for the code point of the same number
  (0 to 255). Everything the source looks at (the prompt alphabet, the line separators,
  the slow-command keywords) is ASCII; whitespace and lower-casing are given for the
  whole range 0 to 255 as Python defines them there.
\<close>

definition BS :: char where
  "BS = CHR 0x08"

definition LF :: char where
  "LF = CHR 0x0A"

definition CR :: char where
  "CR = CHR 0x0D"

text \<open>The character class \<open>[A-Za-z0-9_-]\<close> of the prompt patterns.\<close>

definition name_char :: "char \<Rightarrow> bool" where
  "name_char c =
     (let n = (of_char c :: nat) in
        (65 \<le> n \<and> n \<le> 90) \<or> (97 \<le> n \<and> n \<le> 122) \<or> (48 \<le> n \<and> n \<le> 57)
        \<or> c = CHR ''_'' \<or> c = CHR ''-'')"

text \<open>The character class \<open>[a-z0-9-]\<close> inside the parentheses of a prompt.\<close>

definition sub_char :: "char \<Rightarrow> bool" where
  "sub_char c =
     (let n = (of_char c :: nat) in
        (97 \<le> n \<and> n \<le> 122) \<or> (48 \<le> n \<and> n \<le> 57) \<or> c = CHR ''-'')"

text \<open>The class \<open>[#>]\<close> that closes a prompt, and the class \<open>[\r\n]\<close> that opens the
  two searched patterns.\<close>

definition term_char :: "char \<Rightarrow> bool" where
  "term_char c = (c = CHR ''#'' \<or> c = CHR ''>'')"

definition crlf_char :: "char \<Rightarrow> bool" where
  "crlf_char c = (c = CR \<or> c = LF)"

text \<open>
  Whitespace as \<open>str.strip()\<close>, \<open>str.isspace()\<close> and the pattern \<open>\s\<close> of a \<open>str\<close>
  regular expression see it, for code points below 256: 9 to 13, 28 to 32, 133 and 160.
\<close>

definition is_space :: "char \<Rightarrow> bool" where
  "is_space c =
     (let n = (of_char c :: nat) in
        (9 \<le> n \<and> n \<le> 13) \<or> (28 \<le> n \<and> n \<le> 32) \<or> n = 133 \<or> n = 160)"

text \<open>\<open>str.strip()\<close>: leading and trailing whitespace removed.\<close>

definition lstrip :: "string \<Rightarrow> string" where
  "lstrip s = dropWhile is_space s"

definition rstrip :: "string \<Rightarrow> string" where
  "rstrip s = rev (dropWhile is_space (rev s))"

definition strip :: "string \<Rightarrow> string" where
  "strip s = rstrip (lstrip s)"

text \<open>
  \<open>str.lower()\<close> on one code point below 256: the letters A to Z, and the Latin-1
  capitals 192 to 222 except the multiplication sign 215, move up by 32.
\<close>

definition lower_char :: "char \<Rightarrow> char" where
  "lower_char c =
     (let n = (of_char c :: nat) in
        if (65 \<le> n \<and> n \<le> 90) \<or> (192 \<le> n \<and> n \<le> 222 \<and> n \<noteq> 215)
        then char_of (n + 32) else c)"

definition lower :: "string \<Rightarrow> string" where
  "lower s = map lower_char s"

text \<open>\<open>s.split('\n')\<close>: the pieces between line feeds, empty pieces kept; the empty
  string gives one empty piece.\<close>

fun split_lf :: "string \<Rightarrow> string list" where
  "split_lf [] = [[]]"
| "split_lf (c # cs) =
     (if c = LF then [] # split_lf cs
      else (case split_lf cs of
              [] \<Rightarrow> [[c]]
            | l # ls \<Rightarrow> (c # l) # ls))"

text \<open>
  \<open>s.replace(old, new)\<close> for a non-empty \<open>old\<close>: the occurrences of \<open>old\<close> are found
  from the left, do not overlap, and each is replaced by \<open>new\<close>. (The source calls it
  with the one-character string backspace and the two-character string space, backspace.)
\<close>

function replace :: "string \<Rightarrow> string \<Rightarrow> string \<Rightarrow> string" where
  "replace old new [] = []"
| "replace old new (c # cs) =
     (if old \<noteq> [] \<and> prefix old (c # cs)
      then new @ replace old new (drop (length old) (c # cs))
      else c # replace old new cs)"
  by pat_completeness auto
termination
  by (relation "measure (\<lambda>(old, new, s). length s)") (auto simp: neq_Nil_conv)

text \<open>The cleaning both \<open>detect_device_mode\<close> and \<open>execute\<close> apply before matching:
  \<open>output.replace('\x08', '').replace(' \b', '')\<close>.\<close>

definition clean_output :: "string \<Rightarrow> string" where
  "clean_output output = replace [CHR '' '', BS] [] (replace [BS] [] output)"

section \<open>The prompt patterns\<close>

text \<open>
  The source hands four patterns to Python's \<open>re\<close>. Each is a sequence of character
  classes in which every repeated class is followed by a character outside it (a name
  is followed by an opening parenthesis or by \<open>#\<close> or \<open>>\<close>, the parenthesised part by a
  closing parenthesis), so the longest run is the only run a match can use and the
  matcher below takes it with \<^const>\<open>takeWhile\<close>. The tail \<open>\s*$\<close> holds exactly when all
  that is left is whitespace: \<open>$\<close> stands at the end of the text or before a final line
  feed, and a line feed is whitespace.
\<close>

text \<open>\<open>[A-Za-z0-9_-]+\([a-z0-9-]+\)[#>]\<close> at the head of \<open>s\<close>: the text matched and what
  follows it.\<close>

definition config_token :: "string \<Rightarrow> (string \<times> string) option" where
  "config_token s =
     (let name = takeWhile name_char s; r1 = dropWhile name_char s in
      if name = [] then None
      else (case r1 of
              [] \<Rightarrow> None
            | p # r2 \<Rightarrow>
                if p \<noteq> CHR ''('' then None
                else (let sub = takeWhile sub_char r2; r3 = dropWhile sub_char r2 in
                      if sub = [] then None
                      else (case r3 of
                              q # t # r4 \<Rightarrow>
                                if q = CHR '')'' \<and> term_char t
                                then Some (name @ [p] @ sub @ [q, t], r4)
                                else None
                            | _ \<Rightarrow> None))))"

text \<open>\<open>[A-Za-z0-9_-]+[#>]\<close> at the head of \<open>s\<close>.\<close>

definition plain_token :: "string \<Rightarrow> (string \<times> string) option" where
  "plain_token s =
     (let name = takeWhile name_char s; r1 = dropWhile name_char s in
      if name = [] then None
      else (case r1 of
              [] \<Rightarrow> None
            | t # r2 \<Rightarrow> if term_char t then Some (name @ [t], r2) else None))"

text \<open>\<open>[A-Za-z0-9_-]+(\([a-z0-9-]+\))?[#>]\<close> at the head of \<open>s\<close>: the optional group is
  tried first, and without it the name must be followed by \<open>#\<close> or \<open>>\<close> at once.\<close>

definition prompt_token :: "string \<Rightarrow> (string \<times> string) option" where
  "prompt_token s =
     (case config_token s of
        Some r \<Rightarrow> Some r
      | None \<Rightarrow> plain_token s)"

text \<open>A pattern \<open>[\r\n](TOKEN)\s*$\<close> tried at the head of \<open>s\<close>; the result is group 1.\<close>

definition anchored :: "(string \<Rightarrow> (string \<times> string) option) \<Rightarrow> string \<Rightarrow> string option" where
  "anchored tok s =
     (case s of
        [] \<Rightarrow> None
      | c # r \<Rightarrow>
          if crlf_char c
          then (case tok r of
                  Some (g, rest) \<Rightarrow> if list_all is_space rest then Some g else None
                | None \<Rightarrow> None)
          else None)"

text \<open>\<open>re.search\<close>: the pattern is tried at every position from the left, and the first
  position where it matches wins.\<close>

fun re_search :: "(string \<Rightarrow> 'a option) \<Rightarrow> string \<Rightarrow> 'a option" where
  "re_search m [] = m []"
| "re_search m (c # cs) =
     (case m (c # cs) of
        Some g \<Rightarrow> Some g
      | None \<Rightarrow> re_search m cs)"

text \<open>The line test of the fallback,
  \<open>re.match(r'^[A-Za-z0-9_-]+(\([a-z0-9-]+\))?[#>]$', line)\<close>. The line comes out of
  \<open>split('\n')\<close> and \<open>strip()\<close>, so \<open>$\<close> can only stand at its end.\<close>

definition prompt_line :: "string \<Rightarrow> bool" where
  "prompt_line line =
     (case prompt_token line of
        Some (g, rest) \<Rightarrow> rest = [] \<or> rest = [LF]
      | None \<Rightarrow> False)"

section \<open>detect_device_mode\<close>

text \<open>\<open>lines[-5:]\<close>: the last five elements, or all of them when there are fewer.\<close>

definition last5 :: "'a list \<Rightarrow> 'a list" where
  "last5 xs = drop (length xs - 5) xs"

text \<open>The loop \<open>for line in reversed(lines[-5:])\<close>: each line is stripped, and the first
  one that is a prompt is returned.\<close>

fun scan_lines :: "string list \<Rightarrow> string option" where
  "scan_lines [] = None"
| "scan_lines (line # rest) =
     (if prompt_line (strip line) then Some (strip line) else scan_lines rest)"

definition detect_device_mode :: "string \<Rightarrow> string" where
  "detect_device_mode output =
     (if output = [] then ''unknown''
      else
        (let clean = clean_output output in
         case re_search (anchored config_token) clean of
           Some g \<Rightarrow> strip g
         | None \<Rightarrow>
             (case re_search (anchored plain_token) clean of
                Some g \<Rightarrow> strip g
              | None \<Rightarrow>
                  (case scan_lines (rev (last5 (split_lf (strip clean)))) of
                     Some line \<Rightarrow> line
                   | None \<Rightarrow> ''unknown''))))"

section \<open>Transports, sessions and the manager's state\<close>

text \<open>
  The transport library, the event loop's clock, the wall clock, the network and the
  identifier generator are outside the program. Their answers are part of the state:
  \<^item> a connection's future answers to bounded reads are a finite script; once it is used
    up the device is silent and every bounded read times out;
  \<^item> the readings of the event loop's clock (\<open>loop.time()\<close>, in seconds) are a script as
    well; a run that asks for a reading the script does not have has no result
    (\<open>None\<close>);
  \<^item> every call of the program into the outside is recorded, in order, in a trace.
  Seconds are real numbers: the rounding of Python's floats is left out.
\<close>

text \<open>What \<open>await asyncio.wait_for(..., timeout)\<close> or a transport call raises:
  \<open>asyncio.TimeoutError\<close>, or any other \<open>Exception\<close> with its text \<open>str(e)\<close>.\<close>

datatype exn = TimeoutError | OtherError string

text \<open>What the manager's methods raise: \<open>ValueError\<close> for an unknown session (with the
  session id of its message), \<open>ConnectionError\<close> after a timeout or after any other
  exception (with the host, the port and, for the latter, the text of the exception
  that its message carries), or an exception of the transport that the method lets
  through.\<close>

datatype error =
    SessionNotFound string
  | ConnectionTimeout string int
  | ConnectionFailed string int string
  | Uncaught exn

text \<open>What the device does at one bounded read of the script: it delivers a chunk of
  text (the empty chunk is the end of the stream), stays silent for the whole timeout, or
  the read raises with the given text.\<close>

datatype incoming_event = Chunk string | Silence | Broken string

text \<open>A connection: the script of its reads, the text with which every write raises
  (if any), the text with which every drain raises (if any), the text with which close
  raises (if any), and whether it has been closed. A write can succeed on a connection
  whose drain then raises.\<close>

record transport =
  incoming :: "incoming_event list"
  write_fault :: "string option"
  drain_fault :: "string option"
  close_fault :: "string option"
  is_closed :: bool

text \<open>What the network answers to an attempt to open a connection within the timeout,
  and the calls of the program into the outside, as the trace records them.\<close>

datatype dial_result = Connected transport | DialTimeout | DialRefused string

datatype action =
    DialCall string int real
  | WriteCall nat string
  | DrainCall nat
  | ReadCall nat nat real
  | SleepCall real
  | CloseCall nat

text \<open>The dataclass \<open>TelnetSession\<close>. The reader and the writer are the two ends of one
  connection and hold its number in the store of transports.\<close>

record telnet_session =
  session_id :: string
  host :: string
  port :: int
  reader :: nat
  writer :: nat
  connected_at :: real

text \<open>\<open>TelnetSessionManager.sessions\<close> is a Python dict: an association list in
  insertion order, written with \<^const>\<open>AList.update\<close> and \<^const>\<open>AList.delete\<close> and read with
  \<^const>\<open>map_of\<close>.\<close>

record state =
  sessions :: "(string \<times> telnet_session) list"
  streams :: "nat \<Rightarrow> transport"
  next_stream :: nat
  clock :: "real list"
  wall_clock :: real
  network :: "string \<Rightarrow> int \<Rightarrow> real \<Rightarrow> dial_result"
  uuid_source :: "nat \<Rightarrow> string"
  uuid_count :: nat
  trace :: "action list"

definition log_action :: "action \<Rightarrow> state \<Rightarrow> state" where
  "log_action a st = st\<lparr>trace := trace st @ [a]\<rparr>"

definition set_incoming :: "nat \<Rightarrow> incoming_event list \<Rightarrow> state \<Rightarrow> state" where
  "set_incoming h evs st = st\<lparr>streams := (streams st)(h := (streams st h)\<lparr>incoming := evs\<rparr>)\<rparr>"

text \<open>\<open>writer.write(s)\<close> and \<open>await writer.drain()\<close>.\<close>

definition writer_write :: "state \<Rightarrow> nat \<Rightarrow> string \<Rightarrow> (exn + unit) \<times> state" where
  "writer_write st h s =
     (case write_fault (streams st h) of
        Some m \<Rightarrow> (Inl (OtherError m), log_action (WriteCall h s) st)
      | None \<Rightarrow> (Inr (), log_action (WriteCall h s) st))"

definition writer_drain :: "state \<Rightarrow> nat \<Rightarrow> (exn + unit) \<times> state" where
  "writer_drain st h =
     (case drain_fault (streams st h) of
        Some m \<Rightarrow> (Inl (OtherError m), log_action (DrainCall h) st)
      | None \<Rightarrow> (Inr (), log_action (DrainCall h) st))"

text \<open>\<open>writer.close()\<close>.\<close>

definition writer_close :: "state \<Rightarrow> nat \<Rightarrow> (exn + unit) \<times> state" where
  "writer_close st h =
     (case close_fault (streams st h) of
        Some m \<Rightarrow> (Inl (OtherError m), log_action (CloseCall h) st)
      | None \<Rightarrow>
          (Inr (),
           log_action (CloseCall h)
             (st\<lparr>streams := (streams st)(h := (streams st h)\<lparr>is_closed := True\<rparr>)\<rparr>)))"

text \<open>\<open>await asyncio.wait_for(reader.read(n), timeout=t)\<close>: at most \<open>n\<close> characters of
  the next chunk (the rest of a longer chunk stays for the next read), the empty string
  at the end of the stream, a timeout, or another exception.\<close>

definition reader_read :: "state \<Rightarrow> nat \<Rightarrow> nat \<Rightarrow> real \<Rightarrow> (exn + string) \<times> state" where
  "reader_read st h n t =
     (let st' = log_action (ReadCall h n t) st in
      case incoming (streams st h) of
        [] \<Rightarrow> (Inl TimeoutError, st')
      | Silence # rest \<Rightarrow> (Inl TimeoutError, set_incoming h rest st')
      | Broken m # rest \<Rightarrow> (Inl (OtherError m), set_incoming h rest st')
      | Chunk s # rest \<Rightarrow>
          (Inr (take n s),
           set_incoming h (if length s \<le> n then rest else Chunk (drop n s) # rest) st'))"

text \<open>\<open>await asyncio.sleep(d)\<close>.\<close>

definition asyncio_sleep :: "state \<Rightarrow> real \<Rightarrow> state" where
  "asyncio_sleep st d = log_action (SleepCall d) st"

text \<open>\<open>asyncio.get_event_loop().time()\<close>.\<close>

definition loop_time :: "state \<Rightarrow> (real \<times> state) option" where
  "loop_time st =
     (case clock st of
        [] \<Rightarrow> None
      | t # ts \<Rightarrow> Some (t, st\<lparr>clock := ts\<rparr>))"

section \<open>execute\<close>

definition long_running_commands :: "string list" where
  "long_running_commands =
     [''ping'', ''traceroute'', ''tracert'', ''show tech'', ''copy'', ''write'', ''reload'',
      ''debug'']"

text \<open>The loop \<open>for cmd in long_running_commands\<close>: at the first keyword the lower-cased,
  stripped command starts with, the wait is raised to at least 12000 and the loop is
  left.\<close>

fun adjust_wait :: "string list \<Rightarrow> string \<Rightarrow> int \<Rightarrow> int" where
  "adjust_wait [] command_lower wait_ms = wait_ms"
| "adjust_wait (cmd # cmds) command_lower wait_ms =
     (if prefix cmd command_lower then max wait_ms 12000
      else adjust_wait cmds command_lower wait_ms)"

text \<open>\<open>prompt_pattern.search(clean_output)\<close> as a truth value, for the pattern
  \<open>[\r\n]([A-Za-z0-9_-]+(\([a-z0-9-]+\))?[#>])\s*$\<close>.\<close>

definition prompt_found :: "string \<Rightarrow> bool" where
  "prompt_found output = (re_search (anchored prompt_token) (clean_output output) \<noteq> None)"

text \<open>One pass through the body of \<open>while True\<close> after the deadline test: the \<open>try\<close>
  statement with its two handlers. \<open>Break\<close> leaves the loop with the output;
  \<open>Continue\<close> goes round again with the output and the time of the last data.\<close>

datatype poll = Break string state | Continue string real state

fun poll_state :: "poll \<Rightarrow> state" where
  "poll_state (Break out st) = st"
| "poll_state (Continue out t st) = st"

definition poll_once :: "nat \<Rightarrow> real \<Rightarrow> real \<Rightarrow> string \<Rightarrow> state \<Rightarrow> poll" where
  "poll_once rd current_time last_data_time output st =
     (case reader_read st rd 4096 (1/10) of
        (Inr data, st1) \<Rightarrow>
          if data \<noteq> [] then
            (if prompt_found (output @ data) then
               (case reader_read (asyncio_sleep st1 (2/10)) rd 4096 (1/10) of
                  (Inr extra_data, st3) \<Rightarrow>
                    Break (if extra_data \<noteq> [] then output @ data @ extra_data
                           else output @ data) st3
                | (Inl TimeoutError, st3) \<Rightarrow> Break (output @ data) st3
                | (Inl (OtherError m), st3) \<Rightarrow> Continue (output @ data) current_time st3)
             else Continue (output @ data) current_time st1)
          else Continue output last_data_time st1
      | (Inl TimeoutError, st1) \<Rightarrow>
          if current_time - last_data_time \<ge> 1 \<and> output \<noteq> [] then
            (if prompt_found output then Break output st1
             else Continue output last_data_time st1)
          else Continue output last_data_time st1
      | (Inl (OtherError m), st1) \<Rightarrow> Continue output last_data_time st1)"

lemma clock_log_action: "clock (log_action a st) = clock st"
  by (simp add: log_action_def)

lemma clock_set_incoming: "clock (set_incoming h evs st) = clock st"
  by (simp add: set_incoming_def)

lemma clock_reader_read: "clock (snd (reader_read st h n t)) = clock st"
  by (simp add: reader_read_def Let_def clock_log_action clock_set_incoming
      split: list.split incoming_event.split)

lemma clock_asyncio_sleep: "clock (asyncio_sleep st d) = clock st"
  by (simp add: asyncio_sleep_def clock_log_action)

lemma clock_poll_once: "clock (poll_state (poll_once rd t l out st)) = clock st"
proof -
  have r: "\<And>s h n t x s'. reader_read s h n t = (x, s') \<Longrightarrow> clock s' = clock s"
    using clock_reader_read by (metis snd_conv)
  show ?thesis
    by (auto simp: poll_once_def clock_asyncio_sleep dest!: r
        split: prod.split sum.split exn.split)
qed

text \<open>The loop \<open>while True\<close>: every round takes one reading of the clock.\<close>

function execute_loop ::
  "nat \<Rightarrow> real \<Rightarrow> real \<Rightarrow> real \<Rightarrow> string \<Rightarrow> state \<Rightarrow> (string \<times> state) option" where
  "execute_loop rd wait_seconds start_time last_data_time output st =
     (case loop_time st of
        None \<Rightarrow> None
      | Some (current_time, st1) \<Rightarrow>
          if current_time - start_time \<ge> wait_seconds then Some (output, st1)
          else (case poll_once rd current_time last_data_time output st1 of
                  Break out st2 \<Rightarrow> Some (out, st2)
                | Continue out last_t st2 \<Rightarrow>
                    execute_loop rd wait_seconds start_time last_t out st2))"
  by pat_completeness auto
termination
proof (relation "measure (\<lambda>(rd, w, s, l, out, st). length (clock st))")
  show "wf (measure (\<lambda>(rd, w, s, l, out, st). length (clock st)))"
    by simp
next
  fix rd :: nat and wait_seconds start_time last_data_time :: real and acc :: string
    and st :: state and x2 :: "real \<times> state" and current_time :: real and st1 :: state
    and out :: string and last_t :: real and st2 :: state
  assume t: "loop_time st = Some x2" "(current_time, st1) = x2"
    and p: "poll_once rd current_time last_data_time acc st1 = Continue out last_t st2"
  from t have "clock st = current_time # clock st1"
    by (auto simp: loop_time_def split: list.splits)
  moreover from p have "clock st2 = clock st1"
    using clock_poll_once [of rd current_time last_data_time acc st1] by simp
  ultimately show
    "((rd, wait_seconds, start_time, last_t, out, st2),
      (rd, wait_seconds, start_time, last_data_time, acc, st))
     \<in> measure (\<lambda>(rd, w, s, l, out, st). length (clock st))"
    by simp
qed

declare execute_loop.simps [simp del]

definition execute ::
  "state \<Rightarrow> string \<Rightarrow> string \<Rightarrow> int \<Rightarrow> ((error + string) \<times> state) option" where
  "execute st sid command wait_ms =
     (case map_of (sessions st) sid of
        None \<Rightarrow> Some (Inl (SessionNotFound sid), st)
      | Some session \<Rightarrow>
          (let command_lower = strip (lower command);
               wait_ms' = adjust_wait long_running_commands command_lower wait_ms;
               wait_seconds = real_of_int wait_ms' / 1000
           in case writer_write st (writer session) (command @ [CR, LF]) of
                (Inl e, st1) \<Rightarrow> Some (Inl (Uncaught e), st1)
              | (Inr u, st1) \<Rightarrow>
                  (case writer_drain st1 (writer session) of
                     (Inl e, st2) \<Rightarrow> Some (Inl (Uncaught e), st2)
                   | (Inr u', st2) \<Rightarrow>
                       (case loop_time st2 of
                          None \<Rightarrow> None
                        | Some (start_time, st3) \<Rightarrow>
                            (case execute_loop (reader session) wait_seconds start_time
                                    start_time [] st3 of
                               None \<Rightarrow> None
                             | Some (output, st4) \<Rightarrow> Some (Inr output, st4))))))"

section \<open>connect\<close>

text \<open>A step that may raise, followed by the rest: the rest runs only when the step
  returned, and the state the step left is kept either way.\<close>

definition and_then ::
  "(exn + 'a) \<times> state \<Rightarrow> ('a \<Rightarrow> state \<Rightarrow> (exn + 'b) \<times> state) \<Rightarrow> (exn + 'b) \<times> state" where
  "and_then r f = (case r of (Inl e, st) \<Rightarrow> (Inl e, st) | (Inr x, st) \<Rightarrow> f x st)"

text \<open>\<open>await asyncio.wait_for(telnetlib3.open_connection(host, port), timeout)\<close>: the
  network answers; a new connection gets the next free number.\<close>

definition open_connection ::
  "state \<Rightarrow> string \<Rightarrow> int \<Rightarrow> real \<Rightarrow> (exn + nat) \<times> state" where
  "open_connection st h p t =
     (let st' = log_action (DialCall h p t) st in
      case network st h p t of
        DialTimeout \<Rightarrow> (Inl TimeoutError, st')
      | DialRefused m \<Rightarrow> (Inl (OtherError m), st')
      | Connected tr \<Rightarrow>
          (Inr (next_stream st),
           st'\<lparr>streams := (streams st)(next_stream st := tr),
               next_stream := Suc (next_stream st)\<rparr>))"

text \<open>\<open>str(uuid.uuid4())\<close>.\<close>

definition uuid4 :: "state \<Rightarrow> string \<times> state" where
  "uuid4 st = (uuid_source st (uuid_count st), st\<lparr>uuid_count := Suc (uuid_count st)\<rparr>)"

text \<open>The loops \<open>for i in range(n)\<close> of the connect sequence: write a line, drain, sleep.\<close>

fun send_lines :: "nat \<Rightarrow> nat \<Rightarrow> string \<Rightarrow> real \<Rightarrow> state \<Rightarrow> (exn + unit) \<times> state" where
  "send_lines 0 wr s d st = (Inr (), st)"
| "send_lines (Suc n) wr s d st =
     and_then (writer_write st wr s) (\<lambda>u st1.
     and_then (writer_drain st1 wr) (\<lambda>u' st2.
     send_lines n wr s d (asyncio_sleep st2 d)))"

text \<open>What a bounded read can still deliver: the characters of the chunks and the number
  of events left. Every read that returns data makes it smaller.\<close>

fun event_size :: "incoming_event \<Rightarrow> nat" where
  "event_size (Chunk s) = Suc (length s)"
| "event_size Silence = 1"
| "event_size (Broken m) = 1"

definition pending :: "state \<Rightarrow> nat \<Rightarrow> nat" where
  "pending st h = sum_list (map event_size (incoming (streams st h)))"

lemma pending_reader_read:
  assumes "reader_read st h n t = (Inr d, st')" and "d \<noteq> []"
  shows "pending st' h < pending st h"
proof -
  from assms obtain s rest where inc: "incoming (streams st h) = Chunk s # rest"
    and d: "d = take n s"
    and st': "st' = set_incoming h (if length s \<le> n then rest else Chunk (drop n s) # rest)
                      (log_action (ReadCall h n t) st)"
    by (auto simp: reader_read_def Let_def split: list.splits incoming_event.splits)
  from d assms(2) have "0 < n" "s \<noteq> []"
    by auto
  then show ?thesis
    by (cases s) (auto simp: pending_def st' inc set_incoming_def log_action_def)
qed

text \<open>The loops \<open>while True\<close> of the connect sequence: bounded reads until one returns
  nothing or times out. The first of them collects what it reads in \<open>initial_output\<close>;
  the other two read the same way and drop the data.\<close>

function read_until_quiet :: "nat \<Rightarrow> string \<Rightarrow> state \<Rightarrow> (exn + string) \<times> state" where
  "read_until_quiet rd acc st =
     (case reader_read st rd 4096 (1/10) of
        (Inr data, st1) \<Rightarrow>
          if data = [] then (Inr acc, st1) else read_until_quiet rd (acc @ data) st1
      | (Inl TimeoutError, st1) \<Rightarrow> (Inr acc, st1)
      | (Inl (OtherError m), st1) \<Rightarrow> (Inl (OtherError m), st1))"
  by pat_completeness auto
termination
proof (relation "measure (\<lambda>(rd, acc, st). pending st rd)")
  show "wf (measure (\<lambda>(rd, acc, st). pending st rd))"
    by simp
next
  fix rd :: nat and acc :: string and st :: state and x :: "exn + string"
    and st1 :: state and data :: string
  assume "(x, st1) = reader_read st rd 4096 (1/10)" "x = Inr data" "data \<noteq> []"
  then have "pending st1 rd < pending st rd"
    using pending_reader_read [of st rd 4096 "1/10" data st1] by simp
  then show "((rd, acc @ data, st1), (rd, acc, st)) \<in> measure (\<lambda>(rd, acc, st). pending st rd)"
    by simp
qed

declare read_until_quiet.simps [simp del]

text \<open>\<open>sub in s\<close> for strings.\<close>

fun contains :: "string \<Rightarrow> string \<Rightarrow> bool" where
  "contains sub [] = (sub = [])"
| "contains sub (c # cs) = (prefix sub (c # cs) \<or> contains sub cs)"

text \<open>The body of \<open>try\<close> in \<open>connect\<close> after the session is stored: three bare line
  ends, five question marks, the first drain, \<open>end\<close> when the drained text holds
  \<open>(config\<close>, \<open>terminal length 0\<close>, and the last drain.\<close>

definition baseline_init :: "nat \<Rightarrow> nat \<Rightarrow> state \<Rightarrow> (exn + unit) \<times> state" where
  "baseline_init rd wr st =
     and_then (send_lines 3 wr [CR, LF] (1/10) st) (\<lambda>u st1.
     and_then (send_lines 5 wr (''?'' @ [CR, LF]) (3/10) st1) (\<lambda>u st2.
     and_then (read_until_quiet rd [] st2) (\<lambda>initial_output st3.
     and_then
       (if contains ''(config'' initial_output then
          and_then (writer_write st3 wr (''end'' @ [CR, LF])) (\<lambda>u st4.
          and_then (writer_drain st4 wr) (\<lambda>u st5.
          and_then (read_until_quiet rd [] (asyncio_sleep st5 (3/10))) (\<lambda>dropped st6.
          (Inr (), st6))))
        else (Inr (), st3)) (\<lambda>u st7.
     and_then (writer_write st7 wr (''terminal length 0'' @ [CR, LF])) (\<lambda>u st8.
     and_then (writer_drain st8 wr) (\<lambda>u st9.
     and_then (read_until_quiet rd [] (asyncio_sleep st9 (3/10))) (\<lambda>dropped st10.
     (Inr (), st10))))))))"

text \<open>The two handlers at the end of \<open>connect\<close>.\<close>

fun connection_error :: "string \<Rightarrow> int \<Rightarrow> exn \<Rightarrow> error" where
  "connection_error h p TimeoutError = ConnectionTimeout h p"
| "connection_error h p (OtherError m) = ConnectionFailed h p m"

definition connect :: "state \<Rightarrow> string \<Rightarrow> int \<Rightarrow> int \<Rightarrow> (error + string) \<times> state" where
  "connect st h p timeout =
     (let timeout_seconds = real_of_int timeout / 1000 in
      case open_connection st h p timeout_seconds of
        (Inl e, st1) \<Rightarrow> (Inl (connection_error h p e), st1)
      | (Inr c, st1) \<Rightarrow>
          (let (sid, st2) = uuid4 st1;
               session = \<lparr>session_id = sid, host = h, port = p, reader = c, writer = c,
                          connected_at = wall_clock st2\<rparr>;
               st3 = st2\<lparr>sessions := AList.update sid session (sessions st2)\<rparr>
           in case baseline_init c c st3 of
                (Inl e, st4) \<Rightarrow> (Inl (connection_error h p e), st4)
              | (Inr u, st4) \<Rightarrow> (Inr sid, st4)))"

section \<open>list_sessions and disconnect\<close>

text \<open>The dict \<open>to_dict\<close> builds, with the time of connection as the number it is (its
  ISO rendering is left out).\<close>

record session_summary =
  sessionId :: string
  summary_host :: string
  summary_port :: int
  connectedAt :: real

definition to_dict :: "telnet_session \<Rightarrow> session_summary" where
  "to_dict s =
     \<lparr>sessionId = session_id s, summary_host = host s, summary_port = port s,
      connectedAt = connected_at s\<rparr>"

definition list_sessions :: "state \<Rightarrow> session_summary list \<times> state" where
  "list_sessions st = (map (\<lambda>(k, s). to_dict s) (sessions st), st)"

definition disconnect :: "state \<Rightarrow> string \<Rightarrow> (error + bool) \<times> state" where
  "disconnect st sid =
     (case map_of (sessions st) sid of
        None \<Rightarrow> (Inl (SessionNotFound sid), st)
      | Some session \<Rightarrow>
          (let st1 = snd (writer_close st (writer session))
           in (Inr True, st1\<lparr>sessions := AList.delete sid (sessions st1)\<rparr>)))"

section \<open>Concrete states\<close>

text \<open>A connection without faults whose device will send the given events, and a
  manager that holds one session \<open>s1\<close> on connection 0 to such a device.\<close>

definition device :: "incoming_event list \<Rightarrow> transport" where
  "device evs =
     \<lparr>incoming = evs, write_fault = None, drain_fault = None, close_fault = None,
      is_closed = False\<rparr>"

definition silent_network :: "string \<Rightarrow> int \<Rightarrow> real \<Rightarrow> dial_result" where
  "silent_network h p t = Connected (device [])"

definition demo_uuid :: "nat \<Rightarrow> string" where
  "demo_uuid n = ''id-'' @ replicate n (CHR ''x'')"

text \<open>\<open>TelnetSessionManager.__init__\<close>: no sessions; the surroundings are given.\<close>

definition manager_init ::
  "(string \<Rightarrow> int \<Rightarrow> real \<Rightarrow> dial_result) \<Rightarrow> real list \<Rightarrow> state" where
  "manager_init net ticks =
     \<lparr>sessions = [], streams = (\<lambda>h. device []), next_stream = 0, clock = ticks,
      wall_clock = 0, network = net, uuid_source = demo_uuid, uuid_count = 0, trace = []\<rparr>"

definition s1_session :: telnet_session where
  "s1_session =
     \<lparr>session_id = ''s1'', host = ''switch'', port = 23, reader = 0, writer = 0,
      connected_at = 0\<rparr>"

definition one_session :: "transport \<Rightarrow> real list \<Rightarrow> state" where
  "one_session tr ticks =
     (manager_init silent_network ticks)
       \<lparr>sessions := [(''s1'', s1_session)],
        streams := (\<lambda>h. device [])(0 := tr),
        next_stream := 1\<rparr>"

text \<open>A device that answers a command with a prompt and then one more blank.\<close>

definition prompt_then_blank :: state where
  "prompt_then_blank = one_session (device [Chunk (LF # ''SW1#''), Chunk '' '']) [1/10]"

text \<open>A device whose connection breaks right after the prompt has arrived.\<close>

definition reset_after_prompt :: state where
  "reset_after_prompt =
     one_session (device [Chunk (LF # ''SW1#''), Broken ''reset'']) [0, 0, 1/2, 3]"

text \<open>A device whose first read fails and that then sends text without a prompt.\<close>

definition flaky :: state where
  "flaky = one_session (device [Broken ''reset'', Chunk ''partial'']) [0, 1/2, 1, 2]"

section \<open>What a run shows\<close>

text \<open>Whether a bounded read raised something other than a timeout.\<close>

fun other_error :: "exn + 'a \<Rightarrow> bool" where
  "other_error (Inl (OtherError m)) = True"
| "other_error (Inl TimeoutError) = False"
| "other_error (Inr x) = False"

text \<open>What a bounded read delivered: its data, or nothing when it raised.\<close>

fun delivered :: "exn + string \<Rightarrow> string" where
  "delivered (Inr x) = x"
| "delivered (Inl e) = []"

text \<open>Of a run of \<open>execute\<close>: what it returned or raised, the calls in the trace, and
  the clock readings it left unused.\<close>

fun outcome ::
  "((error + string) \<times> state) option \<Rightarrow> ((error + string) \<times> action list \<times> real list) option" where
  "outcome None = None"
| "outcome (Some (r, st)) = Some (r, trace st, clock st)"

section \<open>The invariant of the registry\<close>

text \<open>The registry is a dict keyed by session id: no key twice, and every session
  stored under its own \<open>session_id\<close>.\<close>

definition registry_inv :: "state \<Rightarrow> bool" where
  "registry_inv st =
     (distinct (map fst (sessions st)) \<and> list_all (\<lambda>(k, s). session_id s = k) (sessions st))"

text \<open>A network whose device accepts the connection and resets it at the first read;
  and a session whose connection raises when it is closed.\<close>

definition resetting_network :: "string \<Rightarrow> int \<Rightarrow> real \<Rightarrow> dial_result" where
  "resetting_network h p t = Connected (device [Broken ''connection reset''])"

definition stubborn :: state where
  "stubborn = one_session ((device [])\<lparr>close_fault := Some ''already closed''\<rparr>) []"

section \<open>The prompt grammar, said without the matcher\<close>

text \<open>The characters a prompt is made of; a plain prompt \<open>NAME#\<close> or \<open>NAME>\<close>; a
  configuration prompt \<open>NAME(sub)#\<close> or \<open>NAME(sub)>\<close>; and the general grammar
  \<open><name>(<paren-group>)?<#|>>\<close>, which is one or the other.\<close>

definition token_char :: "char \<Rightarrow> bool" where
  "token_char c = (name_char c \<or> c = CHR ''('' \<or> c = CHR '')'' \<or> term_char c)"

definition plain_shape :: "string \<Rightarrow> bool" where
  "plain_shape g =
     (\<exists>name t. g = name @ [t] \<and> name \<noteq> [] \<and> list_all name_char name \<and> term_char t)"

definition config_shape :: "string \<Rightarrow> bool" where
  "config_shape g =
     (\<exists>name sub t. g = name @ ''('' @ sub @ '')'' @ [t] \<and> name \<noteq> [] \<and> list_all name_char name
        \<and> sub \<noteq> [] \<and> list_all sub_char sub \<and> term_char t)"

definition prompt_shape :: "string \<Rightarrow> bool" where
  "prompt_shape g = (config_shape g \<or> plain_shape g)"

text \<open>The fallback as C8 words it, for comparison with the code: the last up to five
  non-empty lines, scanned in reverse order.\<close>

definition claimed_fallback :: "string \<Rightarrow> string" where
  "claimed_fallback text =
     (case scan_lines (rev (last5 (filter (\<lambda>l. l \<noteq> []) (split_lf (strip (clean_output text)))))) of
        Some line \<Rightarrow> line
      | None \<Rightarrow> ''unknown'')"

text \<open>A prompt followed by five line feeds and a word; and a prompt followed by an
  echoed command and its output.\<close>

definition blank_lines_text :: string where
  "blank_lines_text = ''SW3#'' @ [LF, LF, LF, LF, LF] @ ''foo''"

definition echoed_text :: string where
  "echoed_text = ''SW3#'' @ [LF] @ ''show clock '' @ [LF] @ ''12:00''"

section \<open>What a run of the read loop is made of\<close>

text \<open>The text a script of reads still holds: the chunks, in order.\<close>

fun text_of :: "incoming_event list \<Rightarrow> string" where
  "text_of [] = []"
| "text_of (Chunk s # evs) = s @ text_of evs"
| "text_of (Silence # evs) = text_of evs"
| "text_of (Broken m # evs) = text_of evs"

text \<open>The buffer a round of polling ends with.\<close>

fun poll_output :: "poll \<Rightarrow> string" where
  "poll_output (Break out st) = out"
| "poll_output (Continue out t st) = out"

text \<open>The calls the read loop makes: a bounded read of 4096 characters with a timeout of
  100 ms on the session's reader, and a sleep of 200 ms.\<close>

definition loop_call :: "nat \<Rightarrow> action \<Rightarrow> bool" where
  "loop_call rd a = (a = ReadCall rd 4096 (1/10) \<or> a = SleepCall (2/10))"

text \<open>
  A run of the read loop, by the clock readings \<open>used\<close> it took after the start, the
  calls it made and the output it returned: it took at least one reading; every reading
  but the last was before the deadline; at the last one the deadline had passed, or the
  output begins with a buffer in which the prompt was found; it made only the calls of
  the loop; and every round but the last made a poll read.
\<close>

definition polled :: "nat \<Rightarrow> real \<Rightarrow> real \<Rightarrow> real list \<Rightarrow> action list \<Rightarrow> string \<Rightarrow> bool" where
  "polled rd w start used calls out =
     (used \<noteq> []
      \<and> list_all (\<lambda>t. t - start < w) (butlast used)
      \<and> (last used - start \<ge> w \<or> (\<exists>buf extra. out = buf @ extra \<and> prompt_found buf))
      \<and> list_all (loop_call rd) calls
      \<and> length used \<le> Suc (length (filter (\<lambda>a. a = ReadCall rd 4096 (1/10)) calls)))"

text \<open>A session whose connection takes a write and raises at the drain.\<close>

definition draining :: state where
  "draining = one_session ((device [])\<lparr>drain_fault := Some ''broken pipe''\<rparr>) [0]"

section \<open>Calls, clock and registry across the primitive steps\<close>

lemma trace_reader_read:
  "reader_read st h n t = (r, st') \<Longrightarrow> trace st' = trace st @ [ReadCall h n t]"
  by (auto simp: reader_read_def Let_def log_action_def set_incoming_def
      split: list.splits incoming_event.splits)

lemma clock_reader_read_eq: "reader_read st h n t = (r, st') \<Longrightarrow> clock st' = clock st"
  using clock_reader_read [of st h n t] by simp

lemma trace_loop_time: "loop_time st = Some (t, st1) \<Longrightarrow> trace st1 = trace st"
  by (auto simp: loop_time_def split: list.splits)

lemma trace_asyncio_sleep: "trace (asyncio_sleep st d) = trace st @ [SleepCall d]"
  by (simp add: asyncio_sleep_def log_action_def)

lemma streams_log_action: "streams (log_action a st) = streams st"
  by (simp add: log_action_def)

text \<open>The loop returns as soon as the clock shows a reading at or past the deadline:
  a script of readings that holds one is enough for a result.\<close>

lemma execute_loop_returns:
  "list_ex (\<lambda>t. t - start \<ge> w) (clock st) \<Longrightarrow>
     \<exists>out st'. execute_loop rd w start l acc st = Some (out, st')"
proof (induction "clock st" arbitrary: st l acc)
  case Nil
  then show ?case by simp
next
  case (Cons t ts)
  from Cons.hyps(2) [symmetric] have lt: "loop_time st = Some (t, st\<lparr>clock := ts\<rparr>)"
    by (simp add: loop_time_def)
  show ?case
  proof (cases "t - start \<ge> w")
    case True
    with lt show ?thesis by (subst execute_loop.simps) simp
  next
    case False
    with Cons.prems Cons.hyps(2) [symmetric] have ex: "list_ex (\<lambda>t. t - start \<ge> w) ts"
      by simp
    show ?thesis
    proof (cases "poll_once rd t l acc (st\<lparr>clock := ts\<rparr>)")
      case (Break out st2)
      with lt False show ?thesis by (subst execute_loop.simps) simp
    next
      case (Continue out l' st2)
      then have "clock st2 = ts"
        using clock_poll_once [of rd t l acc "st\<lparr>clock := ts\<rparr>"] by simp
      then have "\<exists>out' st'. execute_loop rd w start l' out st2 = Some (out', st')"
        using Cons.hyps(1) [of st2 l' out] ex by simp
      with lt False Continue show ?thesis by (subst execute_loop.simps) simp
    qed
  qed
qed

lemma prompt_found_SW1: "prompt_found (LF # ''SW1#'')"
  by code_simp

section \<open>Unknown sessions\<close>

text \<open>
  C5: for every session id that is not in the registry, \<open>execute\<close> fails with the error
  for an unknown session and calls nothing outside the program: the state after the call
  (the registry, every connection's stream, the trace of calls) is the state before it.
\<close>

theorem execute_unknown_session:
  assumes "map_of (sessions st) sid = None"
  shows "execute st sid command wait_ms = Some (Inl (SessionNotFound sid), st)"
  using assms by (simp add: execute_def)

theorem execute_unknown_session_witness:
  "map_of (sessions (one_session (device []) [0])) ''s2'' = None
   \<and> execute (one_session (device []) [0]) ''s2'' ''show version'' 2000
       = Some (Inl (SessionNotFound ''s2''), one_session (device []) [0])"
proof -
  have h: "map_of (sessions (one_session (device []) [0])) ''s2'' = None"
    by (simp add: one_session_def)
  from execute_unknown_session [OF h, of "''show version''" 2000] h show ?thesis
    by simp
qed

section \<open>The read loop of execute\<close>

text \<open>
  C1, as the code has it: when a poll read of the loop returns data and the buffer with
  that data, cleaned, ends in a prompt, the loop sleeps 200 ms and makes one more bounded
  read; when that read returns data or times out, the loop appends what it returned and
  ends at once with the buffer, having made exactly these three calls and without asking
  the clock again.
\<close>

theorem prompt_on_arrival_returns:
  assumes "loop_time st = Some (current_time, st1)"
    and "current_time - start_time < wait_seconds"
    and "reader_read st1 rd 4096 (1/10) = (Inr data, st2)"
    and "data \<noteq> []"
    and "prompt_found (output @ data)"
    and "reader_read (asyncio_sleep st2 (2/10)) rd 4096 (1/10) = (r, st3)"
    and "\<not> other_error r"
  shows "execute_loop rd wait_seconds start_time last_data_time output st =
           Some (output @ data @ delivered r, st3)
         \<and> trace st3 =
             trace st @ [ReadCall rd 4096 (1/10), SleepCall (2/10), ReadCall rd 4096 (1/10)]
         \<and> clock st3 = clock st1"
proof -
  have "poll_once rd current_time last_data_time output st1 =
          Break (output @ data @ delivered r) st3"
    using assms by (cases r rule: other_error.cases) (auto simp: poll_once_def)
  then have "execute_loop rd wait_seconds start_time last_data_time output st =
           Some (output @ data @ delivered r, st3)"
    using assms(1,2) by (subst execute_loop.simps) simp
  moreover have "trace st3 =
      trace st @ [ReadCall rd 4096 (1/10), SleepCall (2/10), ReadCall rd 4096 (1/10)]"
    using trace_reader_read [OF assms(3)] trace_reader_read [OF assms(6)]
      trace_loop_time [OF assms(1)] by (simp add: trace_asyncio_sleep)
  moreover have "clock st3 = clock st1"
    using clock_reader_read_eq [OF assms(3)] clock_reader_read_eq [OF assms(6)]
    by (simp add: clock_asyncio_sleep)
  ultimately show ?thesis by simp
qed

theorem prompt_on_arrival_returns_witness:
  "outcome (map_option (\<lambda>(out, st). (Inr out, st))
      (execute_loop 0 2 0 0 [] prompt_then_blank))
   = Some (Inr (LF # ''SW1# ''),
           [ReadCall 0 4096 (1/10), SleepCall (2/10), ReadCall 0 4096 (1/10)], [])"
proof -
  let ?st1 = "prompt_then_blank\<lparr>clock := []\<rparr>"
  let ?st2 = "snd (reader_read ?st1 0 4096 (1/10))"
  let ?r3 = "reader_read (asyncio_sleep ?st2 (2/10)) 0 4096 (1/10)"
  have a: "loop_time prompt_then_blank = Some (1/10, ?st1)"
    by (simp add: loop_time_def prompt_then_blank_def one_session_def manager_init_def)
  have b: "(1/10::real) - 0 < 2" by simp
  have c: "reader_read ?st1 0 4096 (1/10) = (Inr (LF # ''SW1#''), ?st2)"
    by (simp add: reader_read_def prompt_then_blank_def one_session_def manager_init_def
        device_def)
  have d: "LF # ''SW1#'' \<noteq> []" by simp
  have e: "prompt_found ([] @ LF # ''SW1#'')"
    using prompt_found_SW1 by simp
  have f: "?r3 = (Inr '' '', snd ?r3)"
    by (simp add: reader_read_def prompt_then_blank_def one_session_def manager_init_def
        device_def asyncio_sleep_def log_action_def set_incoming_def)
  have g: "\<not> other_error (Inr '' '' :: exn + string)" by simp
  have t: "trace prompt_then_blank = []" "clock ?st1 = []"
    by (simp_all add: prompt_then_blank_def one_session_def manager_init_def)
  from prompt_on_arrival_returns [OF a b c d e f g, of 0] t show ?thesis
    by simp
qed

text \<open>
  C1 as it is stated does not hold: when the read after the 200 ms wait raises an error
  that is not a timeout, the error is swallowed by the handler of the loop and the loop
  goes on. Here the prompt arrives with the first read and the next read fails; the run
  makes two more reads and ends only when the clock shows 3 s, past the deadline of 2 s.
\<close>

theorem grace_read_error_counterexample:
  "prompt_found (LF # ''SW1#'')
   \<and> outcome (execute reset_after_prompt ''s1'' ''show clock'' 2000)
     = Some (Inr (LF # ''SW1#''),
             [WriteCall 0 (''show clock'' @ [CR, LF]), DrainCall 0,
              ReadCall 0 4096 (1/10), SleepCall (2/10), ReadCall 0 4096 (1/10),
              ReadCall 0 4096 (1/10)],
             [])"
proof -
  have "outcome (execute reset_after_prompt ''s1'' ''show clock'' 2000)
     = Some (Inr (LF # ''SW1#''),
             [WriteCall 0 (''show clock'' @ [CR, LF]), DrainCall 0,
              ReadCall 0 4096 (1/10), SleepCall (2/10), ReadCall 0 4096 (1/10),
              ReadCall 0 4096 (1/10)],
             [])"
    by code_simp
  with prompt_found_SW1 show ?thesis by simp
qed

text \<open>
  C3: when a bounded read of the loop times out, the time since the last data (as the
  loop measures it, from the clock reading of the round in which data last arrived, or
  from the start) is at least one second and the buffer is not empty, the cleaned buffer
  is tested against the prompt pattern again; when it matches the loop ends at once with
  the buffer, after that one read and nothing else, and otherwise it goes on.
\<close>

theorem silence_match_returns:
  assumes "loop_time st = Some (current_time, st1)"
    and "current_time - start_time < wait_seconds"
    and "reader_read st1 rd 4096 (1/10) = (Inl TimeoutError, st2)"
    and "current_time - last_data_time \<ge> 1"
    and "output \<noteq> []"
  shows "execute_loop rd wait_seconds start_time last_data_time output st =
           (if prompt_found output then Some (output, st2)
            else execute_loop rd wait_seconds start_time last_data_time output st2)
         \<and> trace st2 = trace st @ [ReadCall rd 4096 (1/10)]"
proof -
  have "poll_once rd current_time last_data_time output st1 =
          (if prompt_found output then Break output st2 else Continue output last_data_time st2)"
    using assms by (simp add: poll_once_def)
  then have "execute_loop rd wait_seconds start_time last_data_time output st =
           (if prompt_found output then Some (output, st2)
            else execute_loop rd wait_seconds start_time last_data_time output st2)"
    using assms(1,2) by (subst execute_loop.simps) simp
  moreover have "trace st2 = trace st @ [ReadCall rd 4096 (1/10)]"
    using trace_reader_read [OF assms(3)] trace_loop_time [OF assms(1)] by simp
  ultimately show ?thesis by simp
qed

theorem silence_match_returns_witness:
  "execute_loop 0 2 0 0 (LF # ''SW1#'') (one_session (device []) [3/2])
     = Some (LF # ''SW1#'',
             log_action (ReadCall 0 4096 (1/10)) ((one_session (device []) [3/2])\<lparr>clock := []\<rparr>))
   \<and> trace (log_action (ReadCall 0 4096 (1/10)) ((one_session (device []) [3/2])\<lparr>clock := []\<rparr>))
     = trace (one_session (device []) [3/2]) @ [ReadCall 0 4096 (1/10)]"
proof -
  let ?st = "one_session (device []) [3/2]"
  let ?st1 = "?st\<lparr>clock := []\<rparr>"
  let ?st2 = "log_action (ReadCall 0 4096 (1/10)) ?st1"
  have a: "loop_time ?st = Some (3/2, ?st1)"
    by (simp add: loop_time_def one_session_def manager_init_def)
  have b: "(3/2::real) - 0 < 2" by simp
  have c: "reader_read ?st1 0 4096 (1/10) = (Inl TimeoutError, ?st2)"
    by (simp add: reader_read_def one_session_def manager_init_def device_def)
  have d: "(3/2::real) - 0 \<ge> 1" by simp
  have e: "LF # ''SW1#'' \<noteq> []" by simp
  from silence_match_returns [OF a b c d e] prompt_found_SW1 show ?thesis
    by simp
qed

lemma text_reader_read:
  "reader_read st h n t = (r, st') \<Longrightarrow>
     text_of (incoming (streams st h)) = delivered r @ text_of (incoming (streams st' h))"
  by (auto simp: reader_read_def Let_def log_action_def set_incoming_def
      split: list.splits incoming_event.splits if_splits)

lemma streams_asyncio_sleep: "streams (asyncio_sleep st d) = streams st"
  by (simp add: asyncio_sleep_def log_action_def)

lemma streams_loop_time: "loop_time st = Some (t, st1) \<Longrightarrow> streams st1 = streams st"
  by (auto simp: loop_time_def split: list.splits)

lemma clock_loop_time: "loop_time st = Some (t, st1) \<Longrightarrow> clock st = t # clock st1"
  by (auto simp: loop_time_def split: list.splits)

text \<open>One round of polling: the text is kept, the calls are a read and at most a sleep
  and a second read, and the round leaves the loop only on a buffer with a prompt.\<close>

lemma poll_once_run:
  assumes "poll_once rd t l acc st = p"
  shows "acc @ text_of (incoming (streams st rd))
           = poll_output p @ text_of (incoming (streams (poll_state p) rd))
         \<and> (\<exists>calls. trace (poll_state p) = trace st @ ReadCall rd 4096 (1/10) # calls
               \<and> list_all (loop_call rd) calls)
         \<and> (\<forall>out s. p = Break out s \<longrightarrow> (\<exists>buf extra. out = buf @ extra \<and> prompt_found buf))"
proof -
  obtain r1 s1 where r1: "reader_read st rd 4096 (1/10) = (r1, s1)"
    by fastforce
  obtain r3 s3 where r3: "reader_read (asyncio_sleep s1 (2/10)) rd 4096 (1/10) = (r3, s3)"
    by fastforce
  have x1: "text_of (incoming (streams st rd)) = delivered r1 @ text_of (incoming (streams s1 rd))"
    by (rule text_reader_read [OF r1])
  have t1: "trace s1 = trace st @ [ReadCall rd 4096 (1/10)]"
    by (rule trace_reader_read [OF r1])
  have x3: "text_of (incoming (streams s1 rd)) = delivered r3 @ text_of (incoming (streams s3 rd))"
    using text_reader_read [OF r3] by (simp add: streams_asyncio_sleep)
  have t3: "trace s3 = trace st @ [ReadCall rd 4096 (1/10), SleepCall (2/10), ReadCall rd 4096 (1/10)]"
    using trace_reader_read [OF r3] by (simp add: trace_asyncio_sleep t1)
  have one: "list_all (loop_call rd) []"
    by simp
  have three: "list_all (loop_call rd) [SleepCall (2/10), ReadCall rd 4096 (1/10)]"
    by (simp add: loop_call_def)
  have stay: "?thesis" if "p = Continue (acc @ delivered r1) l' s1" for l'
    using that x1 t1 by simp
  have p: "p = poll_once rd t l acc st"
    using assms by simp
  show ?thesis
  proof (cases r1)
    case (Inl e)
    show ?thesis
    proof (cases e)
      case TimeoutError
      show ?thesis
      proof (cases "t - l \<ge> 1 \<and> acc \<noteq> [] \<and> prompt_found acc")
        case True
        with Inl TimeoutError r1 have "p = Break acc s1"
          by (simp add: p poll_once_def)
        moreover from True have "\<exists>buf extra. acc = buf @ extra \<and> prompt_found buf"
          by (intro exI [of _ acc] exI [of _ "[]"]) simp
        ultimately show ?thesis
          using x1 t1 Inl by simp
      next
        case False
        with Inl TimeoutError r1 have "p = Continue acc l s1"
          by (auto simp: p poll_once_def)
        with stay [of l] Inl show ?thesis by simp
      qed
    next
      case (OtherError m)
      with Inl r1 have "p = Continue acc l s1"
        by (simp add: p poll_once_def)
      with stay [of l] Inl show ?thesis by simp
    qed
  next
    case (Inr data)
    show ?thesis
    proof (cases "data = []")
      case True
      with Inr r1 have "p = Continue acc l s1"
        by (simp add: p poll_once_def)
      with stay [of l] Inr True show ?thesis by simp
    next
      case False
      show ?thesis
      proof (cases "prompt_found (acc @ data)")
        case no: False
        with Inr False r1 have "p = Continue (acc @ data) t s1"
          by (simp add: p poll_once_def)
        with stay [of t] Inr show ?thesis by simp
      next
        case yes: True
        have found: "\<exists>buf extra. acc @ data @ delivered r3 = buf @ extra \<and> prompt_found buf"
          using yes by (intro exI [of _ "acc @ data"] exI [of _ "delivered r3"]) simp
        have after: "acc @ text_of (incoming (streams st rd))
            = (acc @ data @ delivered r3) @ text_of (incoming (streams s3 rd))"
          using x1 x3 Inr by simp
        have calls: "\<exists>calls. trace s3 = trace st @ ReadCall rd 4096 (1/10) # calls
               \<and> list_all (loop_call rd) calls"
          using t3 three by (intro exI [of _ "[SleepCall (2/10), ReadCall rd 4096 (1/10)]"]) simp
        show ?thesis
        proof (cases "other_error r3")
          case True
          then obtain m where m: "r3 = Inl (OtherError m)"
            by (cases r3 rule: other_error.cases) simp_all
          with Inr False yes r1 r3 have "p = Continue (acc @ data) t s3"
            by (simp add: p poll_once_def)
          with after calls m show ?thesis by simp
        next
          case ok: False
          with Inr False yes r1 r3 have "p = Break (acc @ data @ delivered r3) s3"
            by (cases r3 rule: other_error.cases) (simp_all add: p poll_once_def)
          with after calls found show ?thesis by simp
        qed
      qed
    qed
  qed
qed


lemma execute_loop_run:
  "execute_loop rd w start l acc st = Some (out, st') \<Longrightarrow>
     acc @ text_of (incoming (streams st rd)) = out @ text_of (incoming (streams st' rd))
     \<and> (\<exists>used calls. clock st = used @ clock st' \<and> trace st' = trace st @ calls
           \<and> polled rd w start used calls out)"
proof (induction rd w start l acc st rule: execute_loop.induct)
  case (1 rd w start l acc st)
  from "1.prems" obtain t st1 where lt: "loop_time st = Some (t, st1)"
    by (subst (asm) execute_loop.simps) (auto split: option.splits)
  note c1 = clock_loop_time [OF lt] and s1 = streams_loop_time [OF lt]
    and t1 = trace_loop_time [OF lt]
  show ?case
  proof (cases "t - start \<ge> w")
    case True
    with lt "1.prems" have e: "out = acc" "st' = st1"
      by (subst (asm) execute_loop.simps, simp)+
    have "polled rd w start [t] [] out"
      using True by (simp add: polled_def)
    with c1 t1 have "\<exists>used calls. clock st = used @ clock st' \<and> trace st' = trace st @ calls
           \<and> polled rd w start used calls out"
      unfolding e by (intro exI [of _ "[t]"] exI [of _ "[]"]) simp
    with e s1 show ?thesis by simp
  next
    case False
    obtain p where p: "poll_once rd t l acc st1 = p" by simp
    note run = poll_once_run [OF p]
    from run obtain c where c: "trace (poll_state p) = trace st1 @ ReadCall rd 4096 (1/10) # c"
      "list_all (loop_call rd) c"
      by blast
    have rc: "loop_call rd (ReadCall rd 4096 (1/10))"
      by (simp add: loop_call_def)
    have ck: "clock (poll_state p) = clock st1"
      using clock_poll_once [of rd t l acc st1] p by simp
    show ?thesis
    proof (cases p)
      case (Break out2 st2)
      with lt False "1.prems" p have e: "out = out2" "st' = st2"
        by (subst (asm) execute_loop.simps, simp)+
      from run Break have "\<exists>buf extra. out2 = buf @ extra \<and> prompt_found buf"
        by blast
      then have "polled rd w start [t] (ReadCall rd 4096 (1/10) # c) out"
        using c(2) rc by (simp add: polled_def e)
      moreover have "clock st = [t] @ clock st'" "trace st' = trace st @ ReadCall rd 4096 (1/10) # c"
        using c1 ck c(1) t1 Break e by simp_all
      ultimately have "\<exists>used calls. clock st = used @ clock st' \<and> trace st' = trace st @ calls
           \<and> polled rd w start used calls out"
        by blast
      moreover have "acc @ text_of (incoming (streams st rd))
          = out @ text_of (incoming (streams st' rd))"
        using run Break e s1 by simp
      ultimately show ?thesis by simp
    next
      case (Continue out2 l2 st2)
      with lt False "1.prems" p have "execute_loop rd w start l2 out2 st2 = Some (out, st')"
        by (subst (asm) execute_loop.simps) simp
      with "1.IH" [OF lt refl _ Continue [folded p]] False
      have ih: "out2 @ text_of (incoming (streams st2 rd)) = out @ text_of (incoming (streams st' rd))"
        and "\<exists>used calls. clock st2 = used @ clock st' \<and> trace st' = trace st2 @ calls
           \<and> polled rd w start used calls out"
        by simp_all
      then obtain used calls where u: "clock st2 = used @ clock st'"
        "trace st' = trace st2 @ calls" "polled rd w start used calls out"
        by blast
      from u(3) have ne: "used \<noteq> []"
        by (simp add: polled_def)
      have "polled rd w start (t # used) ((ReadCall rd 4096 (1/10) # c) @ calls) out"
        using u(3) False c(2) ne rc by (simp add: polled_def)
      moreover have "clock st = (t # used) @ clock st'"
        using c1 ck u(1) Continue by simp
      moreover have "trace st' = trace st @ (ReadCall rd 4096 (1/10) # c) @ calls"
        using c(1) t1 u(2) Continue by simp
      ultimately have "\<exists>used calls. clock st = used @ clock st' \<and> trace st' = trace st @ calls
           \<and> polled rd w start used calls out"
        by blast
      moreover have "acc @ text_of (incoming (streams st rd))
          = out @ text_of (incoming (streams st' rd))"
        using run Continue ih s1 by simp
      ultimately show ?thesis by simp
    qed
  qed
qed


text \<open>
  C2: for a session in the registry whose connection takes the command (the write and
  the drain of lines 222 and 223 do not raise), \<open>execute\<close> never raises: it has no result
  that is an error. It is the write, the drain, one reading of the clock and the read
  loop on an empty buffer, whose output it returns as a success. When the clock comes to
  show a reading at or past the deadline, it returns. What it returns is the accumulated
  output: exactly the text the device delivered to the reads of the run, in order,
  nothing dropped and nothing added, be it empty or partial; the run made the write, the
  drain and then only polls, one at least in every round before the last, and it ended
  at the first clock reading at or past the deadline unless a prompt had been found
  before. In the loop, a poll read that raises anything but a timeout changes neither
  the buffer nor the time of the last data and the loop goes on; so does the loop when
  the read after a matched prompt raises anything but a timeout, with the data of the
  round kept; data without a prompt is appended and the loop goes on; and at a clock
  reading at or past the deadline the loop returns the buffer as it is.
\<close>

theorem execute_never_raises_after_write:
  assumes "map_of (sessions st) sid = Some session"
    and "write_fault (streams st (writer session)) = None"
    and "drain_fault (streams st (writer session)) = None"
  shows "(\<forall>e st'. execute st sid command wait_ms \<noteq> Some (Inl e, st'))
    \<and> execute st sid command wait_ms =
        (case loop_time (log_action (DrainCall (writer session))
                (log_action (WriteCall (writer session) (command @ [CR, LF])) st)) of
           None \<Rightarrow> None
         | Some (start_time, st3) \<Rightarrow>
             map_option (\<lambda>(out, st4). (Inr out, st4))
               (execute_loop (reader session)
                  (real_of_int
                     (adjust_wait long_running_commands (strip (lower command)) wait_ms) / 1000)
                  start_time start_time [] st3))
    \<and> (\<forall>start ticks.
          clock st = start # ticks
          \<and> list_ex (\<lambda>t. t - start \<ge>
                real_of_int (adjust_wait long_running_commands (strip (lower command)) wait_ms)
                  / 1000) ticks
          \<longrightarrow> (\<exists>out st'. execute st sid command wait_ms = Some (Inr out, st')))
    \<and> (\<forall>out st'.
          execute st sid command wait_ms = Some (Inr out, st') \<longrightarrow>
            text_of (incoming (streams st (reader session)))
              = out @ text_of (incoming (streams st' (reader session)))
            \<and> (\<exists>start used calls.
                  clock st = start # used @ clock st'
                  \<and> trace st' =
                      trace st @ WriteCall (writer session) (command @ [CR, LF])
                        # DrainCall (writer session) # calls
                  \<and> polled (reader session)
                      (real_of_int
                         (adjust_wait long_running_commands (strip (lower command)) wait_ms)
                         / 1000)
                      start used calls out))
    \<and> (\<forall>rd t l acc s1 m s2.
          reader_read s1 rd 4096 (1/10) = (Inl (OtherError m), s2)
          \<longrightarrow> poll_once rd t l acc s1 = Continue acc l s2)
    \<and> (\<forall>rd t l acc s1 data s2 m s3.
          reader_read s1 rd 4096 (1/10) = (Inr data, s2) \<and> data \<noteq> []
          \<and> prompt_found (acc @ data)
          \<and> reader_read (asyncio_sleep s2 (2/10)) rd 4096 (1/10) = (Inl (OtherError m), s3)
          \<longrightarrow> poll_once rd t l acc s1 = Continue (acc @ data) t s3)
    \<and> (\<forall>rd t l acc s1 data s2.
          reader_read s1 rd 4096 (1/10) = (Inr data, s2) \<and> data \<noteq> []
          \<and> \<not> prompt_found (acc @ data)
          \<longrightarrow> poll_once rd t l acc s1 = Continue (acc @ data) t s2)
    \<and> (\<forall>rd w start l acc s t s1.
          loop_time s = Some (t, s1) \<and> t - start \<ge> w
          \<longrightarrow> execute_loop rd w start l acc s = Some (acc, s1))"
proof -
  let ?w = "real_of_int (adjust_wait long_running_commands (strip (lower command)) wait_ms) / 1000"
  let ?st1 = "log_action (WriteCall (writer session) (command @ [CR, LF])) st"
  let ?st2 = "log_action (DrainCall (writer session)) ?st1"
  have sent: "writer_write st (writer session) (command @ [CR, LF]) = (Inr (), ?st1)"
    "writer_drain ?st1 (writer session) = (Inr (), ?st2)"
    using assms(2,3) by (simp_all add: writer_write_def writer_drain_def streams_log_action)
  have eq: "execute st sid command wait_ms =
        (case loop_time ?st2 of
           None \<Rightarrow> None
         | Some (start_time, st3) \<Rightarrow>
             map_option (\<lambda>(out, st4). (Inr out, st4))
               (execute_loop (reader session) ?w start_time start_time [] st3))"
    using assms(1) sent
    by (simp add: execute_def Let_def split: option.split)
  have never: "execute st sid command wait_ms \<noteq> Some (Inl e, st')" for e st'
    unfolding eq by (auto split: option.splits)
  have total: "\<exists>out st'. execute st sid command wait_ms = Some (Inr out, st')"
    if a: "clock st = start # ticks \<and> list_ex (\<lambda>t. t - start \<ge> ?w) ticks" for start ticks
  proof -
    from a have lt: "loop_time ?st2 = Some (start, ?st2\<lparr>clock := ticks\<rparr>)"
      by (simp add: loop_time_def clock_log_action)
    from a obtain out st' where
      "execute_loop (reader session) ?w start start [] (?st2\<lparr>clock := ticks\<rparr>) = Some (out, st')"
      using execute_loop_returns [where start = start and w = ?w
          and st = "?st2\<lparr>clock := ticks\<rparr>" and rd = "reader session" and l = start
          and acc = "[]"]
      by auto
    with lt show ?thesis
      unfolding eq by simp
  qed
  have run: "text_of (incoming (streams st (reader session)))
              = out @ text_of (incoming (streams st' (reader session)))
            \<and> (\<exists>start used calls.
                  clock st = start # used @ clock st'
                  \<and> trace st' =
                      trace st @ WriteCall (writer session) (command @ [CR, LF])
                        # DrainCall (writer session) # calls
                  \<and> polled (reader session) ?w start used calls out)"
    if r: "execute st sid command wait_ms = Some (Inr out, st')" for out st'
  proof -
    from r obtain start st3 where lt: "loop_time ?st2 = Some (start, st3)"
      and lp: "execute_loop (reader session) ?w start start [] st3 = Some (out, st')"
      unfolding eq by (auto split: option.splits)
    have s3: "streams st3 = streams st"
      using streams_loop_time [OF lt] by (simp add: streams_log_action)
    have c3: "clock st = start # clock st3"
      using clock_loop_time [OF lt] by (simp add: clock_log_action)
    have t3: "trace st3 = trace st @ [WriteCall (writer session) (command @ [CR, LF]),
        DrainCall (writer session)]"
      using trace_loop_time [OF lt] by (simp add: log_action_def)
    from execute_loop_run [OF lp] obtain used calls where
      x: "text_of (incoming (streams st3 (reader session)))
            = out @ text_of (incoming (streams st' (reader session)))"
      and u: "clock st3 = used @ clock st'" "trace st' = trace st3 @ calls"
        "polled (reader session) ?w start used calls out"
      by auto
    have "clock st = start # used @ clock st'
          \<and> trace st' = trace st @ WriteCall (writer session) (command @ [CR, LF])
                # DrainCall (writer session) # calls
          \<and> polled (reader session) ?w start used calls out"
      using c3 t3 u by simp
    then have "\<exists>start used calls.
                  clock st = start # used @ clock st'
                  \<and> trace st' =
                      trace st @ WriteCall (writer session) (command @ [CR, LF])
                        # DrainCall (writer session) # calls
                  \<and> polled (reader session) ?w start used calls out"
      by blast
    with x s3 show ?thesis by simp
  qed
  have swallow: "poll_once rd t l acc s1 = Continue acc l s2"
    if "reader_read s1 rd 4096 (1/10) = (Inl (OtherError m), s2)" for rd t l acc s1 m s2
    using that by (simp add: poll_once_def)
  have grace: "poll_once rd t l acc s1 = Continue (acc @ data) t s3"
    if "reader_read s1 rd 4096 (1/10) = (Inr data, s2) \<and> data \<noteq> []
          \<and> prompt_found (acc @ data)
          \<and> reader_read (asyncio_sleep s2 (2/10)) rd 4096 (1/10) = (Inl (OtherError m), s3)"
    for rd t l acc s1 data s2 m s3
    using that by (simp add: poll_once_def)
  have keep: "poll_once rd t l acc s1 = Continue (acc @ data) t s2"
    if "reader_read s1 rd 4096 (1/10) = (Inr data, s2) \<and> data \<noteq> []
          \<and> \<not> prompt_found (acc @ data)"
    for rd t l acc s1 data s2
    using that by (simp add: poll_once_def)
  have deadline: "execute_loop rd w start l acc s = Some (acc, s1)"
    if "loop_time s = Some (t, s1) \<and> t - start \<ge> w" for rd w start l acc s t s1
    using that by (subst execute_loop.simps) simp
  from eq never total run swallow grace keep deadline show ?thesis
    by (intro conjI allI impI) blast+
qed

text \<open>The write and the drain stand outside the \<open>try\<close> of the loop: a drain that raises
  after a successful write is let through.\<close>

lemma execute_drain_raises:
  "outcome (execute draining ''s1'' ''show version'' 2000)
     = Some (Inl (Uncaught (OtherError ''broken pipe'')),
             [WriteCall 0 (''show version'' @ [CR, LF]), DrainCall 0], [0])"
  by code_simp

theorem execute_never_raises_after_write_witness:
  "map_of (sessions flaky) ''s1'' = Some s1_session
   \<and> write_fault (streams flaky (writer s1_session)) = None
   \<and> drain_fault (streams flaky (writer s1_session)) = None
   \<and> outcome (execute flaky ''s1'' ''show version'' 2000)
       = Some (Inr ''partial'',
               [WriteCall 0 (''show version'' @ [CR, LF]), DrainCall 0,
                ReadCall 0 4096 (1/10), ReadCall 0 4096 (1/10)], [])
   \<and> (\<exists>st'. execute flaky ''s1'' ''show version'' 2000 = Some (Inr ''partial'', st')
          \<and> text_of (incoming (streams flaky (reader s1_session)))
              = ''partial'' @ text_of (incoming (streams st' (reader s1_session))))"
proof -
  have a: "map_of (sessions flaky) ''s1'' = Some s1_session"
    by (simp add: flaky_def one_session_def)
  have b: "write_fault (streams flaky (writer s1_session)) = None"
    "drain_fault (streams flaky (writer s1_session)) = None"
    by (simp_all add: flaky_def one_session_def s1_session_def device_def)
  have ev: "outcome (execute flaky ''s1'' ''show version'' 2000)
       = Some (Inr ''partial'',
               [WriteCall 0 (''show version'' @ [CR, LF]), DrainCall 0,
                ReadCall 0 4096 (1/10), ReadCall 0 4096 (1/10)], [])"
    by code_simp
  then obtain st' where r: "execute flaky ''s1'' ''show version'' 2000 = Some (Inr ''partial'', st')"
    by (cases "execute flaky ''s1'' ''show version'' 2000" rule: outcome.cases) auto
  note kept = execute_never_raises_after_write [OF a b, of "''show version''" 2000,
      THEN conjunct2, THEN conjunct2, THEN conjunct2, THEN conjunct1, rule_format, OF r,
      THEN conjunct1]
  from r kept
  have "\<exists>st'. execute flaky ''s1'' ''show version'' 2000 = Some (Inr ''partial'', st')
          \<and> text_of (incoming (streams flaky (reader s1_session)))
              = ''partial'' @ text_of (incoming (streams st' (reader s1_session)))"
    by blast
  with a b ev show ?thesis by simp
qed

section \<open>Slow commands\<close>

lemma adjust_wait_eq:
  "adjust_wait kws c w = (if list_ex (\<lambda>kw. prefix kw c) kws then max w 12000 else w)"
  by (induction kws) auto

lemma lstrip_keep: "s \<noteq> [] \<Longrightarrow> \<not> is_space (hd s) \<Longrightarrow> lstrip s = s"
  by (cases s) (auto simp: lstrip_def)

lemma rstrip_prefix:
  assumes "kw \<noteq> []" and "\<not> is_space (last kw)"
  shows "prefix kw (rstrip (kw @ r))"
proof (cases "\<forall>x\<in>set (rev r). is_space x")
  case True
  then have "dropWhile is_space (rev r @ rev kw) = dropWhile is_space (rev kw)"
    by (simp add: dropWhile_append)
  moreover have "dropWhile is_space (rev kw) = rev kw"
    using assms by (cases "rev kw") (auto simp: last_rev hd_rev)
  ultimately show ?thesis by (simp add: rstrip_def)
next
  case False
  then have "dropWhile is_space (rev r @ rev kw) = dropWhile is_space (rev r) @ rev kw"
    by (auto simp: dropWhile_append)
  then show ?thesis by (simp add: rstrip_def)
qed

lemma strip_keeps_prefix:
  assumes "prefix kw s" and "kw \<noteq> []" and "\<not> is_space (hd kw)" and "\<not> is_space (last kw)"
  shows "prefix kw (strip s)"
proof -
  from assms(1) obtain r where s: "s = kw @ r" by (auto simp: prefix_def)
  with assms(2,3) have "lstrip s = s"
    by (intro lstrip_keep) auto
  with s rstrip_prefix [OF assms(2,4), of r] show ?thesis
    by (simp add: strip_def)
qed

lemma keywords_solid:
  "list_all (\<lambda>kw. kw \<noteq> [] \<and> \<not> is_space (hd kw) \<and> \<not> is_space (last kw)) long_running_commands"
  by (simp add: long_running_commands_def is_space_def)

lemma keyword_survives_strip:
  assumes "list_ex (\<lambda>kw. prefix kw s) long_running_commands"
  shows "list_ex (\<lambda>kw. prefix kw (strip s)) long_running_commands"
proof -
  from assms obtain kw where kw: "kw \<in> set long_running_commands" "prefix kw s"
    by (auto simp: list_ex_iff)
  with keywords_solid have "kw \<noteq> [] \<and> \<not> is_space (hd kw) \<and> \<not> is_space (last kw)"
    by (auto simp: list_all_iff)
  with kw(2) have "prefix kw (strip s)"
    by (auto intro: strip_keeps_prefix)
  with kw(1) show ?thesis by (auto simp: list_ex_iff)
qed

text \<open>
  C4, as the code has it: the command is lower-cased and stripped of leading and trailing
  whitespace; when what is left begins with one of the keywords ping, traceroute,
  tracert, show tech, copy, write, reload, debug, the effective wait is the larger of the
  caller's value and 12000 ms, and otherwise it is the caller's value. In particular a
  command that itself begins, in any letter case, with a keyword runs with at least
  12000 ms. The wait \<open>execute\<close> runs with is this effective wait.
\<close>

theorem slow_command_wait:
  "adjust_wait long_running_commands (strip (lower command)) wait_ms =
     (if list_ex (\<lambda>kw. prefix kw (strip (lower command))) long_running_commands
      then max wait_ms 12000 else wait_ms)
   \<and> (list_ex (\<lambda>kw. prefix kw (lower command)) long_running_commands \<longrightarrow>
        adjust_wait long_running_commands (strip (lower command)) wait_ms = max wait_ms 12000
        \<and> 12000 \<le> adjust_wait long_running_commands (strip (lower command)) wait_ms)
   \<and> execute st sid command wait_ms =
       execute st sid command
         (adjust_wait long_running_commands (strip (lower command)) wait_ms)"
proof (intro conjI impI)
  show "adjust_wait long_running_commands (strip (lower command)) wait_ms =
     (if list_ex (\<lambda>kw. prefix kw (strip (lower command))) long_running_commands
      then max wait_ms 12000 else wait_ms)"
    by (rule adjust_wait_eq)
next
  assume a: "list_ex (\<lambda>kw. prefix kw (lower command)) long_running_commands"
  then show "adjust_wait long_running_commands (strip (lower command)) wait_ms = max wait_ms 12000"
    using keyword_survives_strip by (simp add: adjust_wait_eq)
  then show "12000 \<le> adjust_wait long_running_commands (strip (lower command)) wait_ms"
    by simp
next
  have again: "adjust_wait long_running_commands (strip (lower command))
          (adjust_wait long_running_commands (strip (lower command)) wait_ms)
        = adjust_wait long_running_commands (strip (lower command)) wait_ms"
    by (simp add: adjust_wait_eq)
  show "execute st sid command wait_ms =
       execute st sid command
         (adjust_wait long_running_commands (strip (lower command)) wait_ms)"
    unfolding execute_def Let_def again by (rule refl)
qed

theorem slow_command_wait_witness:
  "adjust_wait long_running_commands (strip (lower ''PING 10.0.0.1'')) 2000 = 12000
   \<and> adjust_wait long_running_commands (strip (lower ''show version'')) 2000 = 2000
   \<and> execute flaky ''s1'' ''PING 10.0.0.1'' 2000 = execute flaky ''s1'' ''PING 10.0.0.1'' 12000"
proof -
  have a: "list_ex (\<lambda>kw. prefix kw (lower ''PING 10.0.0.1'')) long_running_commands"
    by code_simp
  have b: "\<not> list_ex (\<lambda>kw. prefix kw (strip (lower ''show version''))) long_running_commands"
    by code_simp
  from slow_command_wait [of "''PING 10.0.0.1''" 2000 flaky "''s1''"] a
  have c: "adjust_wait long_running_commands (strip (lower ''PING 10.0.0.1'')) 2000 = 12000"
    by simp
  from slow_command_wait [of "''show version''" 2000 flaky "''s1''"] b
  have d: "adjust_wait long_running_commands (strip (lower ''show version'')) 2000 = 2000"
    by simp
  from slow_command_wait [of "''PING 10.0.0.1''" 2000 flaky "''s1''"] c
  have "execute flaky ''s1'' ''PING 10.0.0.1'' 2000 = execute flaky ''s1'' ''PING 10.0.0.1'' 12000"
    by simp
  with c d show ?thesis by simp
qed

text \<open>
  C4 as it is stated does not hold for commands that do not match: a command with a
  leading blank does not begin with any keyword, and its wait is raised all the same.
\<close>

theorem leading_blank_counterexample:
  "\<not> list_ex (\<lambda>kw. prefix kw (lower '' ping 10.0.0.1'')) long_running_commands
   \<and> adjust_wait long_running_commands (strip (lower '' ping 10.0.0.1'')) 2000 = 12000"
  by code_simp

section \<open>The registry across the operations\<close>

lemma sessions_log_action: "sessions (log_action a st) = sessions st"
  by (simp add: log_action_def)

lemma sessions_set_incoming: "sessions (set_incoming h evs st) = sessions st"
  by (simp add: set_incoming_def)

lemma sessions_reader_read: "sessions (snd (reader_read st h n t)) = sessions st"
  by (simp add: reader_read_def Let_def sessions_log_action sessions_set_incoming
      split: list.split incoming_event.split)

lemma sessions_writer_write: "sessions (snd (writer_write st h s)) = sessions st"
  by (simp add: writer_write_def sessions_log_action split: option.split)

lemma sessions_writer_drain: "sessions (snd (writer_drain st h)) = sessions st"
  by (simp add: writer_drain_def sessions_log_action split: option.split)

lemma sessions_writer_close: "sessions (snd (writer_close st h)) = sessions st"
  by (simp add: writer_close_def sessions_log_action split: option.split)

lemma sessions_asyncio_sleep: "sessions (asyncio_sleep st d) = sessions st"
  by (simp add: asyncio_sleep_def sessions_log_action)

lemma sessions_loop_time: "loop_time st = Some (t, st1) \<Longrightarrow> sessions st1 = sessions st"
  by (auto simp: loop_time_def split: list.splits)

lemma sessions_poll_once: "sessions (poll_state (poll_once rd t l acc st)) = sessions st"
proof -
  have r: "\<And>s h n t x s'. reader_read s h n t = (x, s') \<Longrightarrow> sessions s' = sessions s"
    using sessions_reader_read by (metis snd_conv)
  show ?thesis
    by (auto simp: poll_once_def sessions_asyncio_sleep dest!: r
        split: prod.split sum.split exn.split)
qed

lemma sessions_execute_loop:
  "execute_loop rd w start l acc st = Some (out, st') \<Longrightarrow> sessions st' = sessions st"
proof (induction rd w start l acc st rule: execute_loop.induct)
  case (1 rd w start l acc st)
  from "1.prems" obtain t st1 where lt: "loop_time st = Some (t, st1)"
    by (subst (asm) execute_loop.simps) (auto split: option.splits)
  show ?case
  proof (cases "t - start \<ge> w")
    case True
    with lt "1.prems" have "st' = st1"
      by (subst (asm) execute_loop.simps) simp
    with lt show ?thesis by (simp add: sessions_loop_time)
  next
    case False
    show ?thesis
    proof (cases "poll_once rd t l acc st1")
      case (Break out2 st2)
      with lt False "1.prems" have "st' = st2"
        by (subst (asm) execute_loop.simps) simp
      with Break sessions_poll_once [of rd t l acc st1] lt show ?thesis
        by (simp add: sessions_loop_time)
    next
      case (Continue out2 l2 st2)
      with lt False "1.prems" have "execute_loop rd w start l2 out2 st2 = Some (out, st')"
        by (subst (asm) execute_loop.simps) simp
      with "1.IH" [OF lt refl _ Continue] False have "sessions st' = sessions st2"
        by simp
      with Continue sessions_poll_once [of rd t l acc st1] lt show ?thesis
        by (simp add: sessions_loop_time)
    qed
  qed
qed

lemma sessions_execute:
  "execute st sid command wait_ms = Some (r, st') \<Longrightarrow> sessions st' = sessions st"
proof (cases "map_of (sessions st) sid")
  case None
  assume "execute st sid command wait_ms = Some (r, st')"
  with None show ?thesis by (simp add: execute_def)
next
  case (Some session)
  assume e: "execute st sid command wait_ms = Some (r, st')"
  obtain r1 st1 where w: "writer_write st (writer session) (command @ [CR, LF]) = (r1, st1)"
    by fastforce
  obtain r2 st2 where d: "writer_drain st1 (writer session) = (r2, st2)"
    by fastforce
  have s1: "sessions st1 = sessions st"
    using sessions_writer_write [of st "writer session" "command @ [CR, LF]"] w by simp
  have s2: "sessions st2 = sessions st"
    using sessions_writer_drain [of st1 "writer session"] d s1 by simp
  from e Some w d consider "st' = st1" | "st' = st2"
    | t st3 ws out where "loop_time st2 = Some (t, st3)"
        "execute_loop (reader session) ws t t [] st3 = Some (out, st')"
    by (auto simp: execute_def Let_def split: sum.splits option.splits)
  then show ?thesis
  proof cases
    case 1
    with s1 show ?thesis by simp
  next
    case 2
    with s2 show ?thesis by simp
  next
    case 3
    with s2 sessions_loop_time [OF 3(1)] sessions_execute_loop [OF 3(2)] show ?thesis
      by simp
  qed
qed

lemma sessions_and_then:
  assumes "sessions (snd r) = S"
    and "\<And>x st. sessions st = S \<Longrightarrow> sessions (snd (f x st)) = S"
  shows "sessions (snd (and_then r f)) = S"
  using assms by (cases r) (auto simp: and_then_def split: sum.split)

lemma sessions_send_lines: "sessions (snd (send_lines n wr s d st)) = sessions st"
proof (induction n arbitrary: st)
  case 0
  then show ?case by simp
next
  case (Suc n)
  show ?case
    by (simp, intro sessions_and_then)
      (simp_all add: sessions_writer_write sessions_writer_drain Suc sessions_asyncio_sleep)
qed

lemma sessions_read_until_quiet: "sessions (snd (read_until_quiet rd acc st)) = sessions st"
proof (induction rd acc st rule: read_until_quiet.induct)
  case (1 rd acc st)
  obtain x st1 where r: "reader_read st rd 4096 (1/10) = (x, st1)"
    by fastforce
  then have s: "sessions st1 = sessions st"
    using sessions_reader_read [of st rd 4096 "1/10"] by simp
  show ?case
  proof (cases x)
    case (Inl e)
    with r s show ?thesis
      by (subst read_until_quiet.simps) (simp split: exn.split)
  next
    case (Inr data)
    with r s "1.IH" [OF r [symmetric] Inr] show ?thesis
      by (subst read_until_quiet.simps) simp
  qed
qed

lemma sessions_baseline_init: "sessions (snd (baseline_init rd wr st)) = sessions st"
  unfolding baseline_init_def
  by (intro sessions_and_then)
    (simp_all add: sessions_send_lines sessions_read_until_quiet sessions_writer_write
      sessions_writer_drain sessions_asyncio_sleep sessions_and_then)

lemma trace_writer_close: "trace (snd (writer_close st h)) = trace st @ [CloseCall h]"
  by (simp add: writer_close_def log_action_def split: option.split)

lemma map_of_delete_self: "map_of (AList.delete k al) k = None"
  by (simp add: delete_conv')

text \<open>
  C9: for every session id in the registry, \<open>disconnect\<close> calls close on the session's
  writer (and the connection is closed when that call does not raise), returns success
  whether or not close raised, and deletes the entry; an \<open>execute\<close> on the same id
  after it fails with the error for an unknown session.
\<close>

theorem disconnect_known_session:
  assumes "map_of (sessions st) sid = Some session"
  shows "fst (disconnect st sid) = Inr True
    \<and> trace (snd (disconnect st sid)) = trace st @ [CloseCall (writer session)]
    \<and> (close_fault (streams st (writer session)) = None
         \<longrightarrow> is_closed (streams (snd (disconnect st sid)) (writer session)))
    \<and> sessions (snd (disconnect st sid)) = AList.delete sid (sessions st)
    \<and> map_of (sessions (snd (disconnect st sid))) sid = None
    \<and> execute (snd (disconnect st sid)) sid command wait_ms
        = Some (Inl (SessionNotFound sid), snd (disconnect st sid))"
proof -
  let ?st' = "snd (disconnect st sid)"
  have r: "fst (disconnect st sid) = Inr True"
    using assms by (simp add: disconnect_def Let_def)
  have t: "trace ?st' = trace st @ [CloseCall (writer session)]"
    using assms by (simp add: disconnect_def Let_def trace_writer_close)
  have c: "close_fault (streams st (writer session)) = None
         \<longrightarrow> is_closed (streams ?st' (writer session))"
    using assms by (simp add: disconnect_def Let_def writer_close_def log_action_def)
  have s: "sessions ?st' = AList.delete sid (sessions st)"
    using assms by (simp add: disconnect_def Let_def sessions_writer_close)
  then have m: "map_of (sessions ?st') sid = None"
    by (simp add: map_of_delete_self)
  then have "execute ?st' sid command wait_ms = Some (Inl (SessionNotFound sid), ?st')"
    by (simp add: execute_def)
  with r t c s m show ?thesis by simp
qed

theorem disconnect_known_session_witness:
  "map_of (sessions stubborn) ''s1'' = Some s1_session
   \<and> fst (disconnect stubborn ''s1'') = Inr True
   \<and> trace (snd (disconnect stubborn ''s1'')) = [CloseCall 0]
   \<and> sessions (snd (disconnect stubborn ''s1'')) = []
   \<and> execute (snd (disconnect stubborn ''s1'')) ''s1'' ''show version'' 2000
       = Some (Inl (SessionNotFound ''s1''), snd (disconnect stubborn ''s1''))"
proof -
  have a: "map_of (sessions stubborn) ''s1'' = Some s1_session"
    by (simp add: stubborn_def one_session_def)
  have b: "trace stubborn = []" "sessions stubborn = [(''s1'', s1_session)]"
    "writer s1_session = 0"
    by (simp_all add: stubborn_def one_session_def manager_init_def s1_session_def)
  from disconnect_known_session [OF a, of "''show version''" 2000] a b show ?thesis
    by simp
qed

lemma list_all_update:
  "list_all P al \<Longrightarrow> P (k, v) \<Longrightarrow> list_all P (AList.update k v al)"
  by (induction al) auto

lemma update_fresh: "k \<notin> fst ` set al \<Longrightarrow> AList.update k v al = al @ [(k, v)]"
  by (induction al) auto

lemma length_delete_present:
  "distinct (map fst al) \<Longrightarrow> map_of al k = Some v \<Longrightarrow> Suc (length (AList.delete k al)) = length al"
proof (induction al)
  case Nil
  then show ?case by simp
next
  case (Cons p al)
  show ?case
  proof (cases "fst p = k")
    case True
    with Cons.prems(1) have "k \<notin> fst ` set al" by auto
    then have "AList.delete k al = al"
      by (induction al) auto
    with True show ?thesis by (cases p) simp
  next
    case False
    with Cons show ?thesis by (cases p) auto
  qed
qed

lemma list_all_delete: "list_all P al \<Longrightarrow> list_all P (AList.delete k al)"
  by (induction al) auto

lemma registry_inv_delete:
  "registry_inv st \<Longrightarrow> sessions st' = AList.delete k (sessions st) \<Longrightarrow> registry_inv st'"
  by (simp add: registry_inv_def distinct_delete list_all_delete)

lemma registry_inv_update:
  "registry_inv st \<Longrightarrow> session_id s = k \<Longrightarrow> sessions st' = AList.update k s (sessions st)
     \<Longrightarrow> registry_inv st'"
  by (simp add: registry_inv_def distinct_update list_all_update)

lemma registry_inv_same: "registry_inv st \<Longrightarrow> sessions st' = sessions st \<Longrightarrow> registry_inv st'"
  by (simp add: registry_inv_def)

text \<open>What connect does to the registry, in each of its three outcomes.\<close>

lemma connect_registry:
  "(\<exists>e. fst (connect st h p timeout) = Inl e
       \<and> sessions (snd (connect st h p timeout)) = sessions st)
   \<or> sessions (snd (connect st h p timeout)) =
        AList.update (uuid_source st (uuid_count st))
          \<lparr>session_id = uuid_source st (uuid_count st), host = h, port = p,
           reader = next_stream st, writer = next_stream st, connected_at = wall_clock st\<rparr>
          (sessions st)
      \<and> (\<forall>sid. fst (connect st h p timeout) = Inr sid \<longrightarrow> sid = uuid_source st (uuid_count st))"
proof (cases "network st h p (real_of_int timeout / 1000)")
  case DialTimeout
  then show ?thesis
    by (simp add: connect_def open_connection_def Let_def log_action_def)
next
  case (DialRefused m)
  then show ?thesis
    by (simp add: connect_def open_connection_def Let_def log_action_def)
next
  case (Connected tr)
  let ?sid = "uuid_source st (uuid_count st)"
  let ?session = "\<lparr>session_id = ?sid, host = h, port = p,
           reader = next_stream st, writer = next_stream st, connected_at = wall_clock st\<rparr>"
  let ?st3 = "st\<lparr>trace := trace st @ [DialCall h p (real_of_int timeout / 1000)],
                 streams := (streams st)(next_stream st := tr),
                 next_stream := Suc (next_stream st),
                 uuid_count := Suc (uuid_count st),
                 sessions := AList.update ?sid ?session (sessions st)\<rparr>"
  have c: "connect st h p timeout =
     (case baseline_init (next_stream st) (next_stream st) ?st3 of
        (Inl e, st4) \<Rightarrow> (Inl (connection_error h p e), st4)
      | (Inr u, st4) \<Rightarrow> (Inr ?sid, st4))"
    using Connected
    by (simp add: connect_def open_connection_def Let_def log_action_def uuid4_def
        split: prod.split sum.split)
  have "sessions (snd (baseline_init (next_stream st) (next_stream st) ?st3)) = sessions ?st3"
    by (rule sessions_baseline_init)
  then show ?thesis
    by (auto simp: c split: prod.splits sum.splits)
qed

text \<open>
  C10: every operation of the manager keeps the registry keyed by session id (no key
  twice, every session under its own \<open>session_id\<close>). A \<open>connect\<close> that returns an id has
  stored the new session under that id, the one just generated, and when the id was not
  a key before, that is one more entry at the end and nothing else; a successful
  \<open>disconnect\<close> deletes the named entry, one entry less; \<open>execute\<close> and \<open>list_sessions\<close>
  leave the registry as it was, and \<open>list_sessions\<close> gives one summary for each stored
  session, in order, with its id.
\<close>

theorem manager_keeps_registry_keyed:
  assumes "registry_inv st"
  shows "registry_inv (snd (connect st h p timeout))
    \<and> (\<forall>sid. fst (connect st h p timeout) = Inr sid \<longrightarrow>
          sid = uuid_source st (uuid_count st)
          \<and> sessions (snd (connect st h p timeout)) =
              AList.update sid
                \<lparr>session_id = sid, host = h, port = p, reader = next_stream st,
                 writer = next_stream st, connected_at = wall_clock st\<rparr> (sessions st)
          \<and> (sid \<notin> fst ` set (sessions st) \<longrightarrow>
               sessions (snd (connect st h p timeout)) =
                 sessions st @
                 [(sid, \<lparr>session_id = sid, host = h, port = p, reader = next_stream st,
                         writer = next_stream st, connected_at = wall_clock st\<rparr>)]))
    \<and> registry_inv (snd (disconnect st sid'))
    \<and> (fst (disconnect st sid') = Inr True \<longrightarrow>
          sessions (snd (disconnect st sid')) = AList.delete sid' (sessions st)
          \<and> Suc (length (sessions (snd (disconnect st sid')))) = length (sessions st))
    \<and> (\<forall>r st'. execute st sid' command wait_ms = Some (r, st') \<longrightarrow>
          sessions st' = sessions st \<and> registry_inv st')
    \<and> snd (list_sessions st) = st
    \<and> map sessionId (fst (list_sessions st)) = map fst (sessions st)
    \<and> length (fst (list_sessions st)) = length (sessions st)"
proof -
  let ?c = "connect st h p timeout"
  let ?sid = "uuid_source st (uuid_count st)"
  let ?session = "\<lparr>session_id = ?sid, host = h, port = p,
           reader = next_stream st, writer = next_stream st, connected_at = wall_clock st\<rparr>"
  have c1: "registry_inv (snd ?c)"
    using connect_registry [of st h p timeout] assms
    by (auto intro: registry_inv_same registry_inv_update [where s = ?session])
  have c2: "\<forall>sid. fst ?c = Inr sid \<longrightarrow>
          sid = ?sid
          \<and> sessions (snd ?c) =
              AList.update sid
                \<lparr>session_id = sid, host = h, port = p, reader = next_stream st,
                 writer = next_stream st, connected_at = wall_clock st\<rparr> (sessions st)
          \<and> (sid \<notin> fst ` set (sessions st) \<longrightarrow>
               sessions (snd ?c) =
                 sessions st @
                 [(sid, \<lparr>session_id = sid, host = h, port = p, reader = next_stream st,
                         writer = next_stream st, connected_at = wall_clock st\<rparr>)])"
    using connect_registry [of st h p timeout] by (auto simp: update_fresh)
  have d0: "sessions (snd (disconnect st sid')) =
      (case map_of (sessions st) sid' of None \<Rightarrow> sessions st
       | Some s \<Rightarrow> AList.delete sid' (sessions st))"
    by (simp add: disconnect_def Let_def sessions_writer_close split: option.split)
  have d1: "registry_inv (snd (disconnect st sid'))"
    using assms d0 by (auto split: option.splits intro: registry_inv_same registry_inv_delete)
  have d2: "fst (disconnect st sid') = Inr True \<longrightarrow>
          sessions (snd (disconnect st sid')) = AList.delete sid' (sessions st)
          \<and> Suc (length (sessions (snd (disconnect st sid')))) = length (sessions st)"
    using assms d0
    by (auto simp: disconnect_def Let_def registry_inv_def length_delete_present
        split: option.splits)
  have e: "\<forall>r st'. execute st sid' command wait_ms = Some (r, st') \<longrightarrow>
          sessions st' = sessions st \<and> registry_inv st'"
    using assms by (auto dest: sessions_execute intro: registry_inv_same)
  have l1: "snd (list_sessions st) = st"
    by (simp add: list_sessions_def)
  have l2: "map sessionId (fst (list_sessions st)) = map fst (sessions st)"
    using assms
    by (auto simp: list_sessions_def registry_inv_def to_dict_def list_all_iff)
  have l3: "length (fst (list_sessions st)) = length (sessions st)"
    by (simp add: list_sessions_def)
  from c1 c2 d1 d2 e l1 l2 l3 show ?thesis
    by blast
qed

text \<open>What does hold of a failing \<open>connect\<close>: the error is a connection error that
  carries host and port, and when the open itself fails the registry is untouched.\<close>

lemma connect_failure_reports_endpoint:
  "fst (connect st h p timeout) = Inl e \<Longrightarrow>
     e = ConnectionTimeout h p \<or> (\<exists>m. e = ConnectionFailed h p m)"
proof -
  have ce: "connection_error h p x = ConnectionTimeout h p
      \<or> (\<exists>m. connection_error h p x = ConnectionFailed h p m)" for x
    by (cases x) simp_all
  assume "fst (connect st h p timeout) = Inl e"
  then obtain x where "e = connection_error h p x"
    by (auto simp: connect_def Let_def uuid4_def split: prod.splits sum.splits)
  with ce [of x] show ?thesis by simp
qed

lemma connect_open_failure_keeps_registry:
  "fst (open_connection st h p (real_of_int timeout / 1000)) = Inl x \<Longrightarrow>
     fst (connect st h p timeout) = Inl (connection_error h p x)
     \<and> sessions (snd (connect st h p timeout)) = sessions st"
  by (auto simp: connect_def open_connection_def Let_def log_action_def
      split: dial_result.splits)

text \<open>
  C6: a \<open>connect\<close> that fails reports a connection error with host and port and leaves
  no session behind. The code stores the session before the baseline steps run: here
  the connection opens, the first read of the drain raises, \<open>connect\<close> reports the
  failure with host and port, and the registry, empty before, holds the new session.
\<close>

theorem connect_failure_leaves_session:
  "sessions (manager_init resetting_network []) = []
   \<and> fst (connect (manager_init resetting_network []) ''10.0.0.1'' 23 5000)
       = Inl (ConnectionFailed ''10.0.0.1'' 23 ''connection reset'')
   \<and> map fst (sessions (snd (connect (manager_init resetting_network []) ''10.0.0.1'' 23 5000)))
       = [''id-'']"
  by code_simp


theorem manager_keeps_registry_keyed_witness:
  "registry_inv (one_session (device []) [])
   \<and> registry_inv (snd (connect (one_session (device []) []) ''10.0.0.2'' 23 5000))
   \<and> sessions (snd (connect (one_session (device []) []) ''10.0.0.2'' 23 5000))
       = [(''s1'', s1_session),
          (''id-'', \<lparr>session_id = ''id-'', host = ''10.0.0.2'', port = 23, reader = 1,
                     writer = 1, connected_at = 0\<rparr>)]
   \<and> registry_inv (snd (disconnect (one_session (device []) []) ''s1''))
   \<and> sessions (snd (disconnect (one_session (device []) []) ''s1'')) = []
   \<and> map sessionId (fst (list_sessions (one_session (device []) []))) = [''s1'']"
proof -
  let ?st = "one_session (device []) []"
  have i: "registry_inv ?st"
    by (simp add: registry_inv_def one_session_def s1_session_def)
  have c: "fst (connect ?st ''10.0.0.2'' 23 5000) = Inr ''id-''"
    by code_simp
  have d: "fst (disconnect ?st ''s1'') = Inr True"
    by (simp add: disconnect_def one_session_def Let_def)
  have f: "sessions ?st = [(''s1'', s1_session)]" "uuid_source ?st (uuid_count ?st) = ''id-''"
    "next_stream ?st = 1" "wall_clock ?st = 0"
    by (simp_all add: one_session_def manager_init_def demo_uuid_def)
  from manager_keeps_registry_keyed [OF i, of "''10.0.0.2''" 23 5000 "''s1''" "''show version''" 2000]
    c d f i show ?thesis
    by (simp add: AList.delete_eq)
qed

section \<open>Prompt detection\<close>

subsection \<open>Character classes\<close>

lemma sub_char_name_char: "sub_char c \<Longrightarrow> name_char c"
  by (auto simp: sub_char_def name_char_def Let_def)

lemma name_char_facts:
  assumes "name_char c"
  shows "\<not> is_space c" "\<not> crlf_char c" "c \<noteq> BS" "c \<noteq> LF" "c \<noteq> CHR ''(''" "c \<noteq> CHR '')''"
    "\<not> term_char c"
  using assms
  by (auto simp: name_char_def is_space_def crlf_char_def BS_def LF_def CR_def term_char_def Let_def)

lemma term_char_facts:
  assumes "term_char c"
  shows "\<not> is_space c" "\<not> crlf_char c" "c \<noteq> BS" "c \<noteq> LF" "c \<noteq> CHR ''(''" "c \<noteq> CHR '')''"
    "\<not> name_char c" "\<not> sub_char c"
  using assms
  by (auto simp: name_char_def sub_char_def is_space_def crlf_char_def BS_def LF_def CR_def
      term_char_def Let_def)

lemma paren_facts:
  "\<not> is_space (CHR ''('')" "\<not> is_space (CHR '')'')" "\<not> crlf_char (CHR ''('')"
  "\<not> crlf_char (CHR '')'')" "CHR ''('' \<noteq> BS" "CHR '')'' \<noteq> BS" "CHR ''('' \<noteq> LF" "CHR '')'' \<noteq> LF"
  "\<not> name_char (CHR ''('')" "\<not> name_char (CHR '')'')" "\<not> sub_char (CHR ''('')"
  "\<not> sub_char (CHR '')'')" "\<not> term_char (CHR ''('')" "\<not> term_char (CHR '')'')"
  by (simp_all add: name_char_def sub_char_def is_space_def crlf_char_def BS_def LF_def CR_def
      term_char_def)

lemma token_char_facts:
  assumes "token_char c"
  shows "\<not> is_space c" "\<not> crlf_char c" "c \<noteq> BS" "c \<noteq> LF"
  using assms
  by (auto simp: token_char_def name_char_def is_space_def crlf_char_def BS_def LF_def CR_def
      term_char_def Let_def)

lemma LF_space: "is_space LF" "crlf_char LF" "crlf_char CR"
  by (simp_all add: is_space_def LF_def crlf_char_def)


subsection \<open>Cleaning\<close>

lemma replace_BS: "replace [BS] [] s = filter (\<lambda>c. c \<noteq> BS) s"
  by (induction s) auto

lemma replace_erase_none: "BS \<notin> set s \<Longrightarrow> replace [CHR '' '', BS] [] s = s"
proof (induction s)
  case Nil
  then show ?case by simp
next
  case (Cons c s)
  then have "\<not> prefix [CHR '' '', BS] (c # s)"
    by (cases s) auto
  with Cons show ?case by auto
qed

lemma clean_output_filter: "clean_output s = filter (\<lambda>c. c \<noteq> BS) s"
  by (simp add: clean_output_def replace_BS replace_erase_none)

subsection \<open>Tokens\<close>

lemma list_all_takeWhile: "list_all P (takeWhile P s)"
  by (induction s) auto

lemma config_token_iff:
  "config_token s = Some (g, rest) \<longleftrightarrow> s = g @ rest \<and> config_shape g"
proof
  assume a: "config_token s = Some (g, rest)"
  let ?name = "takeWhile name_char s"
  from a have n: "?name \<noteq> []"
    by (auto simp: config_token_def Let_def split: if_splits)
  from a obtain r2 where r1: "dropWhile name_char s = CHR ''('' # r2"
    by (auto simp: config_token_def Let_def split: if_splits list.splits)
  let ?sub = "takeWhile sub_char r2"
  from a r1 n have sb: "?sub \<noteq> []"
    by (auto simp: config_token_def Let_def split: if_splits)
  from a r1 n sb obtain t where r3: "dropWhile sub_char r2 = CHR '')'' # t # rest"
    and t: "term_char t" and g: "g = ?name @ ''('' @ ?sub @ '')'' @ [t]"
    by (auto simp: config_token_def Let_def split: if_splits list.splits)
  have "s = ?name @ dropWhile name_char s" by simp
  also have "\<dots> = ?name @ CHR ''('' # (?sub @ dropWhile sub_char r2)"
    by (simp add: r1)
  finally have "s = g @ rest"
    by (simp add: g r3)
  moreover have "config_shape g"
    unfolding config_shape_def using n sb t g list_all_takeWhile by blast
  ultimately show "s = g @ rest \<and> config_shape g" by simp
next
  assume "s = g @ rest \<and> config_shape g"
  then obtain name sub t where s: "s = name @ CHR ''('' # sub @ CHR '')'' # t # rest"
    and g: "g = name @ ''('' @ sub @ '')'' @ [t]"
    and n: "name \<noteq> []" "list_all name_char name"
    and sb: "sub \<noteq> []" "list_all sub_char sub" and t: "term_char t"
    by (auto simp: config_shape_def)
  have tn: "takeWhile name_char s = name"
    using n paren_facts by (simp add: s takeWhile_tail list_all_iff)
  have dn: "dropWhile name_char s = CHR ''('' # sub @ CHR '')'' # t # rest"
    using n paren_facts by (simp add: s dropWhile_append3 list_all_iff)
  have ts: "takeWhile sub_char (sub @ CHR '')'' # t # rest) = sub"
    using sb paren_facts by (simp add: takeWhile_tail list_all_iff)
  have ds: "dropWhile sub_char (sub @ CHR '')'' # t # rest) = CHR '')'' # t # rest"
    using sb paren_facts by (simp add: dropWhile_append3 list_all_iff)
  show "config_token s = Some (g, rest)"
    using n sb t by (simp add: config_token_def Let_def tn dn ts ds g)
qed

lemma plain_token_iff:
  "plain_token s = Some (g, rest) \<longleftrightarrow> s = g @ rest \<and> plain_shape g"
proof
  assume a: "plain_token s = Some (g, rest)"
  let ?name = "takeWhile name_char s"
  from a have n: "?name \<noteq> []"
    by (auto simp: plain_token_def Let_def split: if_splits)
  from a n obtain t where r1: "dropWhile name_char s = t # rest" and t: "term_char t"
    and g: "g = ?name @ [t]"
    by (auto simp: plain_token_def Let_def split: if_splits list.splits)
  have "s = ?name @ dropWhile name_char s" by simp
  then have "s = g @ rest"
    by (simp add: g r1)
  moreover have "plain_shape g"
    unfolding plain_shape_def using n t g list_all_takeWhile by blast
  ultimately show "s = g @ rest \<and> plain_shape g" by simp
next
  assume "s = g @ rest \<and> plain_shape g"
  then obtain name t where s: "s = name @ t # rest" and g: "g = name @ [t]"
    and n: "name \<noteq> []" "list_all name_char name" and t: "term_char t"
    by (auto simp: plain_shape_def)
  have tn: "takeWhile name_char s = name"
    using n t term_char_facts by (simp add: s takeWhile_tail list_all_iff)
  have dn: "dropWhile name_char s = t # rest"
    using n t term_char_facts by (simp add: s dropWhile_append3 list_all_iff)
  show "plain_token s = Some (g, rest)"
    using n t by (simp add: plain_token_def Let_def tn dn g)
qed

lemma shapes_apart: "config_shape g \<Longrightarrow> plain_shape g' \<Longrightarrow> g @ r \<noteq> g' @ r'"
proof
  assume c: "config_shape g" and p: "plain_shape g'" and e: "g @ r = g' @ r'"
  from c have "config_token (g @ r) = Some (g, r)"
    by (simp add: config_token_iff)
  moreover from p obtain name t where g': "g' = name @ [t]" and n: "name \<noteq> []"
    "list_all name_char name" and t: "term_char t"
    by (auto simp: plain_shape_def)
  have "takeWhile name_char (g' @ r') = name" "dropWhile name_char (g' @ r') = t # r'"
    using n t term_char_facts by (simp_all add: g' takeWhile_tail dropWhile_append3 list_all_iff)
  then have "config_token (g' @ r') = None"
    using t term_char_facts by (simp add: config_token_def Let_def)
  ultimately show False using e by simp
qed

lemma prompt_token_iff:
  "prompt_token s = Some (g, rest) \<longleftrightarrow> s = g @ rest \<and> prompt_shape g"
proof (cases "config_token s")
  case None
  then have "\<not> (s = g @ rest \<and> config_shape g)"
    using config_token_iff [of s g rest] by simp
  with None show ?thesis
    by (auto simp: prompt_token_def prompt_shape_def plain_token_iff)
next
  case (Some r)
  obtain g0 r0 where r: "r = (g0, r0)" by (cases r)
  with Some have c: "s = g0 @ r0" "config_shape g0"
    by (simp_all add: config_token_iff)
  show ?thesis
  proof
    assume "prompt_token s = Some (g, rest)"
    with Some r c show "s = g @ rest \<and> prompt_shape g"
      by (simp add: prompt_token_def prompt_shape_def)
  next
    assume a: "s = g @ rest \<and> prompt_shape g"
    with c shapes_apart [of g0 g r0 rest] have "config_shape g"
      by (auto simp: prompt_shape_def)
    with a have "config_token s = Some (g, rest)"
      by (simp add: config_token_iff)
    then show "prompt_token s = Some (g, rest)"
      by (simp add: prompt_token_def)
  qed
qed

lemma shape_token_chars: "prompt_shape g \<Longrightarrow> g \<noteq> [] \<and> list_all token_char g"
  using sub_char_name_char
  by (auto simp: prompt_shape_def config_shape_def plain_shape_def token_char_def list_all_iff)

subsection \<open>Searching\<close>

lemma anchored_Some:
  "anchored f s = Some g \<Longrightarrow>
     \<exists>c r rest. s = c # r \<and> crlf_char c \<and> f r = Some (g, rest) \<and> list_all is_space rest"
  by (auto simp: anchored_def split: list.splits if_splits option.splits)

lemma re_search_no_crlf:
  "list_all (\<lambda>c. \<not> crlf_char c) s \<Longrightarrow> re_search (anchored f) s = None"
  by (induction s) (auto simp: anchored_def)

lemma re_search_skip:
  "(\<And>p1 x p2. pre = p1 @ x # p2 \<Longrightarrow> m (x # p2 @ s) = None) \<Longrightarrow>
     re_search m (pre @ s) = re_search m s"
proof (induction pre)
  case Nil
  then show ?case by simp
next
  case (Cons x pre)
  have "m (x # pre @ s) = None"
    using Cons.prems [of "[]" x pre] by simp
  moreover have "re_search m (pre @ s) = re_search m s"
  proof (rule Cons.IH)
    fix p1 y p2
    assume "pre = p1 @ y # p2"
    then show "m (y # p2 @ s) = None"
      using Cons.prems [of "x # p1" y p2] by simp
  qed
  ultimately show ?case by simp
qed

lemma re_search_Some: "re_search m s = Some g \<Longrightarrow> \<exists>s'. m s' = Some g"
  by (induction s) (auto split: option.splits)

lemma spaces_after_token:
  assumes "p @ tok = g @ rest" and "list_all is_space rest" and "prompt_shape tok"
  shows "rest = []"
proof (rule ccontr)
  assume r: "rest \<noteq> []"
  from assms(3) have t: "tok \<noteq> []" "list_all token_char tok"
    using shape_token_chars by auto
  then have "\<not> is_space (last tok)"
    using token_char_facts(1) by (simp add: list_all_iff)
  moreover from r t assms(1) have "last tok = last rest"
    by (metis last_appendR)
  moreover from r assms(2) have "is_space (last rest)"
    by (simp add: list_all_iff)
  ultimately show False by simp
qed

lemma anchored_before_token:
  assumes sound: "\<And>r g rest. f r = Some (g, rest) \<Longrightarrow> r = g @ rest \<and> prompt_shape g"
    and c: "crlf_char c" and tok: "prompt_shape tok"
  shows "anchored f (x # p2 @ c # tok) = None"
proof (rule ccontr)
  assume "anchored f (x # p2 @ c # tok) \<noteq> None"
  then obtain g where "anchored f (x # p2 @ c # tok) = Some g" by auto
  then obtain rest where f: "f (p2 @ c # tok) = Some (g, rest)" and sp: "list_all is_space rest"
    using anchored_Some by fastforce
  from sound [OF f] have e: "p2 @ c # tok = g @ rest" and g: "prompt_shape g" by simp_all
  from e have "(p2 @ [c]) @ tok = g @ rest" by simp
  from spaces_after_token [OF this sp tok] e have "g = p2 @ c # tok" by simp
  with g have "token_char c"
    using shape_token_chars [of g] by (simp add: list_all_iff)
  with c token_char_facts(2) show False by blast
qed

lemma config_token_sound:
  "config_token r = Some (g, rest) \<Longrightarrow> r = g @ rest \<and> prompt_shape g"
  by (simp add: config_token_iff prompt_shape_def)

lemma plain_token_sound:
  "plain_token r = Some (g, rest) \<Longrightarrow> r = g @ rest \<and> prompt_shape g"
  by (simp add: plain_token_iff prompt_shape_def)

lemma token_no_crlf: "prompt_shape tok \<Longrightarrow> list_all (\<lambda>c. \<not> crlf_char c) tok"
  using shape_token_chars [of tok] token_char_facts(2) by (auto simp: list_all_iff)

text \<open>A search over a text that ends in a line break and a token only looks at that
  last line break.\<close>

lemma re_search_line_end:
  assumes sound: "\<And>r g rest. f r = Some (g, rest) \<Longrightarrow> r = g @ rest \<and> prompt_shape g"
    and c: "crlf_char c" and tok: "prompt_shape tok"
  shows "re_search (anchored f) (pre @ c # tok) =
           (case f tok of Some (g, rest) \<Rightarrow> if rest = [] then Some g else None | None \<Rightarrow> None)"
proof -
  have "re_search (anchored f) (pre @ c # tok) = re_search (anchored f) (c # tok)"
    by (rule re_search_skip) (simp add: anchored_before_token [OF sound c tok])
  also have "\<dots> = (case anchored f (c # tok) of Some g \<Rightarrow> Some g | None \<Rightarrow> None)"
    using re_search_no_crlf [OF token_no_crlf [OF tok], of f] by (simp split: option.split)
  also have "\<dots> = (case f tok of Some (g, rest) \<Rightarrow> if rest = [] then Some g else None
                    | None \<Rightarrow> None)"
  proof (cases "f tok")
    case None
    with c show ?thesis by (simp add: anchored_def)
  next
    case (Some a)
    obtain g rest where a: "a = (g, rest)" by (cases a)
    with Some sound have e: "tok = g @ rest" by simp
    have "list_all is_space rest \<longleftrightarrow> rest = []"
      using spaces_after_token [of "[]" tok g rest] e tok by auto
    with Some a c show ?thesis by (simp add: anchored_def)
  qed
  finally show ?thesis .
qed

subsection \<open>Stripping and splitting\<close>

lemma rstrip_keep: "s \<noteq> [] \<Longrightarrow> \<not> is_space (last s) \<Longrightarrow> rstrip s = s"
proof -
  assume a: "s \<noteq> []" "\<not> is_space (last s)"
  then have "dropWhile is_space (rev s) = rev s"
    by (cases "rev s") (auto simp: last_rev hd_rev)
  then show ?thesis by (simp add: rstrip_def)
qed

lemma strip_token: "prompt_shape tok \<Longrightarrow> strip tok = tok"
proof -
  assume "prompt_shape tok"
  then have t: "tok \<noteq> []" "list_all token_char tok"
    using shape_token_chars by auto
  then have "\<not> is_space (hd tok)" "\<not> is_space (last tok)"
    using token_char_facts(1) by (simp_all add: list_all_iff)
  with t(1) show ?thesis
    by (simp add: strip_def lstrip_keep rstrip_keep)
qed

lemma rstrip_last: "rstrip s \<noteq> [] \<Longrightarrow> \<not> is_space (last (rstrip s))"
proof -
  assume a: "rstrip s \<noteq> []"
  then have "dropWhile is_space (rev s) \<noteq> []"
    by (simp add: rstrip_def)
  then have "\<not> is_space (hd (dropWhile is_space (rev s)))"
    by (rule hd_dropWhile)
  with a show ?thesis
    by (simp add: rstrip_def last_rev)
qed

lemma strip_last: "strip s \<noteq> [] \<Longrightarrow> \<not> is_space (last (strip s))"
  unfolding strip_def by (rule rstrip_last)

lemma split_lf_no_lf: "LF \<notin> set s \<Longrightarrow> split_lf s = [s]"
  by (induction s) auto

lemma prompt_shape_code: "prompt_shape g \<longleftrightarrow> prompt_token g = Some (g, [])"
  by (simp add: prompt_token_iff)

lemma prompt_line_strip: "prompt_line (strip l) \<longleftrightarrow> prompt_shape (strip l)"
proof
  assume "prompt_line (strip l)"
  then obtain g rest where p: "prompt_token (strip l) = Some (g, rest)"
    and r: "rest = [] \<or> rest = [LF]"
    by (auto simp: prompt_line_def split: option.splits)
  from p have e: "strip l = g @ rest" and g: "prompt_shape g"
    by (simp_all add: prompt_token_iff)
  from r show "prompt_shape (strip l)"
  proof
    assume "rest = []"
    with e g show ?thesis by simp
  next
    assume "rest = [LF]"
    with e have "strip l \<noteq> []" "last (strip l) = LF" by simp_all
    with strip_last [of l] LF_space(1) show ?thesis by simp
  qed
next
  assume "prompt_shape (strip l)"
  then show "prompt_line (strip l)"
    by (simp add: prompt_line_def prompt_shape_code)
qed

subsection \<open>Scanning the last lines\<close>

lemma scan_lines_skip:
  "list_all (\<lambda>l. \<not> prompt_shape (strip l)) xs \<Longrightarrow> scan_lines (xs @ ys) = scan_lines ys"
  by (induction xs) (auto simp: prompt_line_strip)

lemma scan_lines_none:
  "list_all (\<lambda>l. \<not> prompt_shape (strip l)) xs \<Longrightarrow> scan_lines xs = None"
  using scan_lines_skip [of xs "[]"] by simp

lemma scan_lines_Some: "scan_lines xs = Some l \<Longrightarrow> prompt_shape l"
  by (induction xs) (auto simp: prompt_line_strip split: if_splits)

lemma detect_fallback:
  assumes "re_search (anchored config_token) (clean_output text) = None"
    and "re_search (anchored plain_token) (clean_output text) = None"
  shows "detect_device_mode text =
           (case scan_lines (rev (last5 (split_lf (strip (clean_output text))))) of
              Some line \<Rightarrow> line | None \<Rightarrow> ''unknown'')"
proof (cases "text = []")
  case True
  have "scan_lines [[]] = None"
    by (simp add: prompt_line_def prompt_token_def config_token_def plain_token_def strip_def
        lstrip_def rstrip_def)
  with True show ?thesis
    by (simp add: detect_device_mode_def clean_output_filter strip_def lstrip_def rstrip_def
        last5_def)
next
  case False
  with assms show ?thesis
    by (simp add: detect_device_mode_def Let_def)
qed

subsection \<open>detect_device_mode\<close>

lemma clean_line_end:
  assumes "crlf_char c" and "prompt_shape tok"
  shows "clean_output (pre @ c # tok) = clean_output pre @ c # tok"
proof -
  have "c \<noteq> BS"
    using assms(1) by (auto simp: crlf_char_def CR_def LF_def BS_def)
  moreover have "filter (\<lambda>c. c \<noteq> BS) tok = tok"
    using shape_token_chars [OF assms(2)] token_char_facts(3)
    by (auto simp: list_all_iff filter_id_conv)
  ultimately show ?thesis by (simp add: clean_output_filter)
qed

lemma detect_at_line_end:
  assumes c: "crlf_char c" and tok: "prompt_shape tok"
  shows "detect_device_mode (pre @ c # tok) = tok"
proof -
  let ?clean = "clean_output pre @ c # tok"
  have cl: "clean_output (pre @ c # tok) = ?clean"
    by (rule clean_line_end [OF c tok])
  have sc: "re_search (anchored config_token) ?clean =
      (case config_token tok of Some (g, rest) \<Rightarrow> if rest = [] then Some g else None
       | None \<Rightarrow> None)"
    by (rule re_search_line_end [OF config_token_sound c tok])
  have sp: "re_search (anchored plain_token) ?clean =
      (case plain_token tok of Some (g, rest) \<Rightarrow> if rest = [] then Some g else None
       | None \<Rightarrow> None)"
    by (rule re_search_line_end [OF plain_token_sound c tok])
  from tok show ?thesis
    unfolding prompt_shape_def
  proof
    assume "config_shape tok"
    then have "config_token tok = Some (tok, [])"
      by (simp add: config_token_iff)
    with sc cl strip_token [OF tok] show ?thesis
      by (simp add: detect_device_mode_def Let_def)
  next
    assume p: "plain_shape tok"
    then have "plain_token tok = Some (tok, [])"
      by (simp add: plain_token_iff)
    moreover have "config_token tok = None"
    proof (cases "config_token tok")
      case None
      then show ?thesis .
    next
      case (Some a)
      obtain g rest where "a = (g, rest)" by (cases a)
      with Some have "tok = g @ rest" "config_shape g"
        by (simp_all add: config_token_iff)
      with shapes_apart [of g tok rest "[]"] p show ?thesis by simp
    qed
    ultimately show ?thesis
      using sc sp cl strip_token [OF tok] by (simp add: detect_device_mode_def Let_def)
  qed
qed

lemma detect_alone:
  assumes tok: "prompt_shape tok"
  shows "detect_device_mode tok = tok"
proof -
  from tok have t: "tok \<noteq> []" "list_all token_char tok"
    using shape_token_chars by auto
  have cl: "clean_output tok = tok"
    using t(2) token_char_facts(3) by (auto simp: clean_output_filter list_all_iff filter_id_conv)
  have lf: "LF \<notin> set tok"
    using t(2) token_char_facts(4) by (auto simp: list_all_iff)
  have "prompt_line tok"
    using prompt_line_strip [of tok] tok by (simp add: strip_token)
  then have "scan_lines (rev (last5 (split_lf (strip (clean_output tok))))) = Some tok"
    using tok by (simp add: cl strip_token split_lf_no_lf [OF lf] last5_def)
  moreover have "re_search (anchored f) (clean_output tok) = None" for f
    using re_search_no_crlf [OF token_no_crlf [OF tok]] by (simp add: cl)
  ultimately show ?thesis
    by (simp add: detect_fallback)
qed

lemma four_shapes:
  assumes "name \<noteq> []" and "list_all name_char name"
  shows "prompt_shape (name @ ''#'')" "prompt_shape (name @ ''>'')"
    "prompt_shape (name @ ''(config)#'')" "prompt_shape (name @ ''(config-if)#'')"
proof -
  have t: "term_char (CHR ''#'')" "term_char (CHR ''>'')"
    by (simp_all add: term_char_def)
  have s: "list_all sub_char ''config''" "list_all sub_char ''config-if''"
    by (simp_all add: sub_char_def)
  show "prompt_shape (name @ ''#'')" "prompt_shape (name @ ''>'')"
    using assms t by (auto simp: prompt_shape_def plain_shape_def)
  have "config_shape (name @ ''('' @ ''config'' @ '')'' @ ''#'')"
    unfolding config_shape_def using assms t(1) s(1) by blast
  then show "prompt_shape (name @ ''(config)#'')"
    by (simp add: prompt_shape_def)
  have "config_shape (name @ ''('' @ ''config-if'' @ '')'' @ ''#'')"
    unfolding config_shape_def using assms t(1) s(2) by blast
  then show "prompt_shape (name @ ''(config-if)#'')"
    by (simp add: prompt_shape_def)
qed

text \<open>
  C7, as the code has it: for every text that is, or whose last line (what follows its
  last carriage return or line feed) is, exactly \<open>NAME#\<close>, \<open>NAME>\<close>, \<open>NAME(config)#\<close> or
  \<open>NAME(config-if)#\<close>, where NAME is a non-empty string of letters, digits, \<open>_\<close> and \<open>-\<close>,
  \<open>detect_device_mode\<close> returns exactly that prompt.
\<close>

theorem detect_trailing_prompt:
  assumes "name \<noteq> []" and "list_all name_char name"
    and "tok = name @ ''#'' \<or> tok = name @ ''>'' \<or> tok = name @ ''(config)#''
         \<or> tok = name @ ''(config-if)#''"
    and "text = tok \<or> (\<exists>pre c. crlf_char c \<and> text = pre @ c # tok)"
  shows "detect_device_mode text = tok"
proof -
  from assms(3) four_shapes [OF assms(1,2)] have "prompt_shape tok"
    by auto
  with assms(4) show ?thesis
    by (auto simp: detect_alone detect_at_line_end)
qed

theorem detect_trailing_prompt_witness:
  "detect_device_mode (''conf t'' @ [CR, LF] @ ''SW3(config)#'') = ''SW3(config)#''
   \<and> detect_device_mode ''SW3>'' = ''SW3>''"
proof -
  have n: "''SW3'' \<noteq> []" "list_all name_char ''SW3''"
    by (simp_all add: name_char_def)
  have a: "''SW3(config)#'' = ''SW3'' @ ''#'' \<or> ''SW3(config)#'' = ''SW3'' @ ''>''
        \<or> ''SW3(config)#'' = ''SW3'' @ ''(config)#'' \<or> ''SW3(config)#'' = ''SW3'' @ ''(config-if)#''"
    by simp
  have b: "''conf t'' @ [CR, LF] @ ''SW3(config)#'' = ''SW3(config)#''
      \<or> (\<exists>pre c. crlf_char c \<and> ''conf t'' @ [CR, LF] @ ''SW3(config)#'' = pre @ c # ''SW3(config)#'')"
    using LF_space(2) by (intro disjI2 exI [of _ "''conf t'' @ [CR]"] exI [of _ LF]) simp
  have c: "''SW3>'' = ''SW3'' @ ''#'' \<or> ''SW3>'' = ''SW3'' @ ''>''
        \<or> ''SW3>'' = ''SW3'' @ ''(config)#'' \<or> ''SW3>'' = ''SW3'' @ ''(config-if)#''"
    by simp
  have d: "''SW3>'' = ''SW3>'' \<or> (\<exists>pre c. crlf_char c \<and> ''SW3>'' = pre @ c # ''SW3>'')"
    by simp
  from detect_trailing_prompt [OF n a b] detect_trailing_prompt [OF n c d] show ?thesis
    by simp
qed

text \<open>
  C7 as it is stated does not hold: a text can end in \<open>NAME#\<close> without the prompt
  standing at the start of its line, and then no pattern matches.
\<close>

theorem same_line_prompt_counterexample:
  "suffix ''SW3#'' ''x SW3#'' \<and> list_all name_char ''SW3''
   \<and> detect_device_mode ''x SW3#'' = ''unknown''"
  by code_simp

text \<open>
  C8, as the code has it: \<open>detect_device_mode\<close> always returns a label, a prompt of the
  general grammar or \<open>unknown\<close>. When neither of the two end-anchored patterns matches
  the cleaned text, it looks at the last up to five lines of the stripped, cleaned text
  (the pieces between line feeds, empty ones counted) in reverse order and returns the
  first that, stripped, is a prompt of the general grammar with nothing after it; when
  none is, it returns \<open>unknown\<close>.
\<close>

theorem detect_device_mode_fallback:
  "(prompt_shape (detect_device_mode text) \<or> detect_device_mode text = ''unknown'')
   \<and> (re_search (anchored config_token) (clean_output text) = None
      \<and> re_search (anchored plain_token) (clean_output text) = None \<longrightarrow>
        (list_all (\<lambda>l. \<not> prompt_shape (strip l)) (last5 (split_lf (strip (clean_output text))))
           \<longrightarrow> detect_device_mode text = ''unknown'')
        \<and> (\<forall>before line after.
             last5 (split_lf (strip (clean_output text))) = before @ line # after
             \<and> prompt_shape (strip line)
             \<and> list_all (\<lambda>l. \<not> prompt_shape (strip l)) after
             \<longrightarrow> detect_device_mode text = strip line))"
proof (intro conjI impI allI)
  let ?scan = "scan_lines (rev (last5 (split_lf (strip (clean_output text)))))"
  show "prompt_shape (detect_device_mode text) \<or> detect_device_mode text = ''unknown''"
  proof (cases "text = []")
    case True
    then show ?thesis by (simp add: detect_device_mode_def)
  next
    case False
    have g: "prompt_shape (strip g)"
      if "re_search (anchored f) (clean_output text) = Some g"
        and "\<And>r g rest. f r = Some (g, rest) \<Longrightarrow> r = g @ rest \<and> prompt_shape g" for f g
    proof -
      from that(1) obtain s' where "anchored f s' = Some g"
        using re_search_Some by fastforce
      then obtain r rest where "f r = Some (g, rest)"
        using anchored_Some by fastforce
      with that(2) have "prompt_shape g" by blast
      then show ?thesis by (simp add: strip_token)
    qed
    show ?thesis
      using False g [OF _ config_token_sound] g [OF _ plain_token_sound] scan_lines_Some
      by (auto simp: detect_device_mode_def Let_def split: option.splits)
  qed
next
  assume "re_search (anchored config_token) (clean_output text) = None
      \<and> re_search (anchored plain_token) (clean_output text) = None"
    and "list_all (\<lambda>l. \<not> prompt_shape (strip l)) (last5 (split_lf (strip (clean_output text))))"
  then show "detect_device_mode text = ''unknown''"
    by (simp add: detect_fallback scan_lines_none list_all_iff)
next
  fix before line after
  assume s: "re_search (anchored config_token) (clean_output text) = None
      \<and> re_search (anchored plain_token) (clean_output text) = None"
    and l: "last5 (split_lf (strip (clean_output text))) = before @ line # after
             \<and> prompt_shape (strip line)
             \<and> list_all (\<lambda>l. \<not> prompt_shape (strip l)) after"
  then have "list_all (\<lambda>l. \<not> prompt_shape (strip l)) (rev after)"
    by (simp add: list_all_iff)
  then have "scan_lines (rev after @ line # rev before) = scan_lines (line # rev before)"
    by (rule scan_lines_skip)
  with l have "scan_lines (rev (last5 (split_lf (strip (clean_output text))))) = Some (strip line)"
    by (simp add: prompt_line_strip)
  with s show "detect_device_mode text = strip line"
    by (simp add: detect_fallback)
qed

theorem detect_device_mode_fallback_witness:
  "detect_device_mode echoed_text = ''SW3#''"
proof -
  have a: "re_search (anchored config_token) (clean_output echoed_text) = None
      \<and> re_search (anchored plain_token) (clean_output echoed_text) = None"
    by code_simp
  have b: "last5 (split_lf (strip (clean_output echoed_text)))
             = [] @ ''SW3#'' # [''show clock '', ''12:00'']"
    by code_simp
  have c: "prompt_shape (strip ''SW3#'')"
    unfolding prompt_shape_code by code_simp
  have d: "list_all (\<lambda>l. \<not> prompt_shape (strip l)) [''show clock '', ''12:00'']"
    unfolding prompt_shape_code by code_simp
  have e: "strip ''SW3#'' = ''SW3#''"
    by code_simp
  from detect_device_mode_fallback [of echoed_text] a
  have "\<forall>before line after.
          last5 (split_lf (strip (clean_output echoed_text))) = before @ line # after
          \<and> prompt_shape (strip line)
          \<and> list_all (\<lambda>l. \<not> prompt_shape (strip l)) after
          \<longrightarrow> detect_device_mode echoed_text = strip line"
    by blast
  from this [rule_format, of "[]" "''SW3#''" "[''show clock '', ''12:00'']"] b c d e
  show ?thesis
    by simp
qed

text \<open>
  C8 as it is stated does not hold: empty lines count among the five. Here neither
  pattern matches, the prompt is the second of the non-empty lines from the end and the
  sixth of all lines: the code returns \<open>unknown\<close>, the scan of the last five non-empty
  lines would return the prompt.
\<close>

theorem blank_lines_counterexample:
  "re_search (anchored config_token) (clean_output blank_lines_text) = None
   \<and> re_search (anchored plain_token) (clean_output blank_lines_text) = None
   \<and> detect_device_mode blank_lines_text = ''unknown''
   \<and> claimed_fallback blank_lines_text = ''SW3#''"
  by code_simp

end
